theory Spec2Isabelle
  imports Main
begin

section \<open>Retranslator.cpp: translator installation and retranslation callbacks\<close>

text \<open>
  A shallow embedding of \<^verbatim>\<open>src/libcalamares/utils/Retranslator.cpp\<close>. The C++ code
  works on objects of the Qt framework; the parts of Qt it calls are modelled here as
  far as the code depends on them:
  \<^item> a \<^verbatim>\<open>QString\<close> is a \<open>string\<close>;
  \<^item> a \<^verbatim>\<open>QLocale\<close> is a record of what the code reads from it: \<^verbatim>\<open>name()\<close>,
    \<^verbatim>\<open>language()\<close> and \<^verbatim>\<open>script()\<close>;
  \<^item> heap objects live in a store, a list of cells indexed by address, where a deleted
    object leaves the cell \<open>None\<close> and \<^verbatim>\<open>new\<close> takes the next unused address;
  \<^item> a nullable pointer is an \<open>addr option\<close>;
  \<^item> the file system and the resource bundle are a record of functions \<open>host_env\<close>;
  \<^item> every call into the host that has an effect, every debug message and every
    invocation of a callback is appended to the \<open>trace\<close> of the program state, in the
    order in which the code performs them.
\<close>

subsection \<open>Strings\<close>

text \<open>\<^verbatim>\<open>QString::replace\<close> for one-character strings \<open>bef\<close> and \<open>aft\<close>, the only
  use in the source: every occurrence is replaced.\<close>

definition QString_replace :: "char \<Rightarrow> char \<Rightarrow> string \<Rightarrow> string" where
  "QString_replace bef aft s = map (\<lambda>c. if c = bef then aft else c) s"

text \<open>\<^verbatim>\<open>QString::lastIndexOf(ch)\<close>: the index of the last occurrence, or \<open>-1\<close>.\<close>

definition lastIndexOf :: "char \<Rightarrow> string \<Rightarrow> int" where
  "lastIndexOf ch s =
     (case filter (\<lambda>i. s ! i = ch) (rev [0..<length s]) of
        [] \<Rightarrow> - 1
      | i # _ \<Rightarrow> int i)"

text \<open>\<^verbatim>\<open>QString::truncate(position)\<close>: a negative position counts as zero, a position
  beyond the end changes nothing.\<close>

definition QString_truncate :: "int \<Rightarrow> string \<Rightarrow> string" where
  "QString_truncate pos s = (if pos < 0 then [] else take (nat pos) s)"

text \<open>\<^verbatim>\<open>QString::remove(position, n)\<close>: a negative position counts from the end; a
  position outside the string changes nothing; a range that reaches beyond the end
  truncates at the position.\<close>

definition QString_remove :: "int \<Rightarrow> int \<Rightarrow> string \<Rightarrow> string" where
  "QString_remove pos n s =
     (let p = (if pos < 0 then pos + int (length s) else pos) in
      if p < 0 \<or> int (length s) \<le> p then s
      else if int (length s) - p \<le> n then take (nat p) s
      else if 0 < n then take (nat p) s @ drop (nat (p + n)) s
      else s)"

subsection \<open>Locales and the munged locale name\<close>

text \<open>The enumerations \<^verbatim>\<open>QLocale::Language\<close> and \<^verbatim>\<open>QLocale::Script\<close>: the values the
  code names, and all others by their number.\<close>

datatype Language = AnyLanguage | CLanguage | Serbian | OtherLanguage nat

datatype Script = AnyScript | LatinScript | CyrillicScript | OtherScript nat

record QLocale =
  name :: string
  language :: Language
  script :: Script

definition mungeLocaleName :: "QLocale \<Rightarrow> string" where
  "mungeLocaleName locale =
     (let localeName = name locale;
          localeName = QString_replace CHR ''-'' CHR ''_'' localeName;
          localeName = (if localeName = ''C'' then ''en'' else localeName);
          localeName = (if language locale = Serbian \<and> script locale = LatinScript
                        then ''sr@latin'' else localeName)
      in localeName)"

subsection \<open>The host: catalogs, the translator stack, the object tree\<close>

type_synonym addr = nat

text \<open>A callback \<^verbatim>\<open>std::function< void() >\<close>: a closure, named by a number, whose call
  either returns or throws.\<close>

datatype callback = Returning nat | Throwing nat

fun throws :: "callback \<Rightarrow> bool" where
  "throws (Throwing n) = True"
| "throws (Returning n) = False"

text \<open>How a call ends: it returns a value, or an exception leaves it.\<close>

datatype 'a completion = Returned 'a | Thrown

text \<open>What a \<^verbatim>\<open>QTranslator\<close> holds: nothing, or the catalog of the last successful
  \<^verbatim>\<open>load\<close>, by the arguments of that call.\<close>

datatype catalog =
    FromFile string
  | FromLocale QLocale string string string

record QTranslator =
  catalog :: "catalog option"

text \<open>A \<^verbatim>\<open>QObject\<close>: its parent, its children in order, the event filters installed on
  it, and its dynamic class, which \<^verbatim>\<open>qobject_cast\<close> reads. A \<^verbatim>\<open>Retranslator\<close> carries
  its callback list.\<close>

datatype QObject_class = PlainObject | Retranslator "callback list"

record QObject =
  parent :: "addr option"
  children :: "addr list"
  eventFilters :: "addr list"
  derived :: QObject_class

datatype QEvent_Type = LanguageChange | OtherEvent nat

record QEvent =
  event_type :: QEvent_Type

text \<open>The file system and the resource bundle, as the code sees them: whether
  \<^verbatim>\<open>QTranslator::load\<close> finds a catalog (in its one-argument form and in its
  locale-searching form), whether a directory exists, its absolute path, and the path
  separator of the platform.\<close>

record host_env =
  separator :: char
  dir_exists :: "string \<Rightarrow> bool"
  absolutePath :: "string \<Rightarrow> string"
  load_file :: "string \<Rightarrow> bool"
  load_locale :: "QLocale \<Rightarrow> string \<Rightarrow> string \<Rightarrow> string \<Rightarrow> bool"

datatype event =
    NewTranslator addr
  | DeleteTranslator addr
  | Load addr string bool
  | LoadLocale addr QLocale string string string bool
  | DirExists string bool
  | CDebug string string
  | InstallTranslator addr
  | RemoveTranslator addr
  | NewRetranslator addr addr
  | Invoke callback
  | Emit_languageChange addr

text \<open>The program state: the two stores, the translator list of
  \<^verbatim>\<open>QCoreApplication\<close> (most recently installed first), the four static variables of
  namespace \<^verbatim>\<open>CalamaresUtils\<close>, and the trace.\<close>

record state =
  translators :: "QTranslator option list"
  app_translators :: "addr list"
  s_brandingTranslator :: "addr option"
  s_translator :: "addr option"
  s_tztranslator :: "addr option"
  s_translatorLocaleName :: string
  objects :: "QObject option list"
  trace :: "event list"

definition deref :: "'a option list \<Rightarrow> addr \<Rightarrow> 'a option" where
  "deref h p = (if p < length h then h ! p else None)"

definition emit :: "event \<Rightarrow> state \<Rightarrow> state" where
  "emit e s = s\<lparr>trace := trace s @ [e]\<rparr>"

text \<open>\<^verbatim>\<open>cDebug() << Logger::SubEntry << msg << arg\<close>.\<close>

definition cDebug :: "string \<Rightarrow> string \<Rightarrow> state \<Rightarrow> state" where
  "cDebug msg arg s = emit (CDebug msg arg) s"

text \<open>\<^verbatim>\<open>new QTranslator()\<close>: an empty translator at a fresh address.\<close>

definition new_QTranslator :: "state \<Rightarrow> addr \<times> state" where
  "new_QTranslator s =
     (let t = length (translators s) in
      (t, emit (NewTranslator t) (s\<lparr>translators := translators s @ [Some \<lparr>catalog = None\<rparr>]\<rparr>)))"

definition set_catalog :: "addr \<Rightarrow> catalog option \<Rightarrow> state \<Rightarrow> state" where
  "set_catalog t c s =
     (case deref (translators s) t of
        None \<Rightarrow> s
      | Some tr \<Rightarrow> s\<lparr>translators := (translators s)[t := Some (tr\<lparr>catalog := c\<rparr>)]\<rparr>)"

text \<open>\<^verbatim>\<open>translator->load(filename)\<close>: the translator holds the catalog when the load
  succeeds and is empty when it fails.\<close>

definition QTranslator_load :: "host_env \<Rightarrow> addr \<Rightarrow> string \<Rightarrow> state \<Rightarrow> bool \<times> state" where
  "QTranslator_load env t filename s =
     (let ok = load_file env filename in
      (ok, emit (Load t filename ok)
             (set_catalog t (if ok then Some (FromFile filename) else None) s)))"

text \<open>\<^verbatim>\<open>translator->load(locale, filename, prefix, directory)\<close>.\<close>

definition QTranslator_load_locale ::
  "host_env \<Rightarrow> addr \<Rightarrow> QLocale \<Rightarrow> string \<Rightarrow> string \<Rightarrow> string \<Rightarrow> state \<Rightarrow> bool \<times> state" where
  "QTranslator_load_locale env t locale filename pre directory s =
     (let ok = load_locale env locale filename pre directory in
      (ok, emit (LoadLocale t locale filename pre directory ok)
             (set_catalog t (if ok then Some (FromLocale locale filename pre directory) else None) s)))"

text \<open>\<^verbatim>\<open>QDir(path).exists()\<close>.\<close>

definition QDir_exists :: "host_env \<Rightarrow> string \<Rightarrow> state \<Rightarrow> bool \<times> state" where
  "QDir_exists env path s =
     (let ok = dir_exists env path in (ok, emit (DirExists path ok) s))"

text \<open>\<^verbatim>\<open>QCoreApplication::installTranslator\<close> puts the translator in front of the list,
  \<^verbatim>\<open>QCoreApplication::removeTranslator\<close> takes it out. The destructor of a
  \<^verbatim>\<open>QTranslator\<close> takes it out of the list as well.\<close>

definition QCoreApplication_installTranslator :: "addr \<Rightarrow> state \<Rightarrow> state" where
  "QCoreApplication_installTranslator t s =
     emit (InstallTranslator t) (s\<lparr>app_translators := t # app_translators s\<rparr>)"

definition QCoreApplication_removeTranslator :: "addr \<Rightarrow> state \<Rightarrow> state" where
  "QCoreApplication_removeTranslator t s =
     emit (RemoveTranslator t) (s\<lparr>app_translators := removeAll t (app_translators s)\<rparr>)"

definition delete_QTranslator :: "addr \<Rightarrow> state \<Rightarrow> state" where
  "delete_QTranslator t s =
     emit (DeleteTranslator t)
       (s\<lparr>translators := (translators s)[t := None],
          app_translators := removeAll t (app_translators s)\<rparr>)"

subsection \<open>The translation loaders\<close>

text \<open>The three subclasses of \<^verbatim>\<open>TranslationLoader\<close>, each with the members of the base
  class; \<^verbatim>\<open>BrandingLoader\<close> adds \<^verbatim>\<open>m_prefix\<close>. The constructors compute \<^verbatim>\<open>m_localeName\<close>.\<close>

datatype TranslationLoader =
    BrandingLoader QLocale string string
  | CalamaresLoader QLocale string
  | TZLoader QLocale string

fun m_locale :: "TranslationLoader \<Rightarrow> QLocale" where
  "m_locale (BrandingLoader l n p) = l"
| "m_locale (CalamaresLoader l n) = l"
| "m_locale (TZLoader l n) = l"

fun m_localeName :: "TranslationLoader \<Rightarrow> string" where
  "m_localeName (BrandingLoader l n p) = n"
| "m_localeName (CalamaresLoader l n) = n"
| "m_localeName (TZLoader l n) = n"

definition new_BrandingLoader :: "QLocale \<Rightarrow> string \<Rightarrow> TranslationLoader" where
  "new_BrandingLoader locale pre = BrandingLoader locale (mungeLocaleName locale) pre"

definition new_CalamaresLoader :: "QLocale \<Rightarrow> TranslationLoader" where
  "new_CalamaresLoader locale = CalamaresLoader locale (mungeLocaleName locale)"

definition new_TZLoader :: "QLocale \<Rightarrow> TranslationLoader" where
  "new_TZLoader locale = TZLoader locale (mungeLocaleName locale)"

definition BrandingLoader_tryLoad ::
  "host_env \<Rightarrow> QLocale \<Rightarrow> string \<Rightarrow> string \<Rightarrow> addr \<Rightarrow> state \<Rightarrow> bool \<times> state" where
  "BrandingLoader_tryLoad env locale localeName pre translator s =
     (if pre = [] then (False, s)
      else
        let brandingTranslationsDirPath =
              QString_truncate (lastIndexOf (separator env) pre) pre
        in case QDir_exists env brandingTranslationsDirPath s of
             (True, s1) \<Rightarrow>
               (let filenameBase = QString_remove 0 (lastIndexOf (separator env) pre + 1) pre
                in case QTranslator_load_locale env translator locale filenameBase ''_''
                          (absolutePath env brandingTranslationsDirPath) s1 of
                     (True, s2) \<Rightarrow> (True, cDebug ''Branding using locale:'' localeName s2)
                   | (False, s2) \<Rightarrow>
                       QTranslator_load env translator (pre @ ''en'')
                         (cDebug ''Branding using default, system locale not found:''
                            localeName s2))
           | (False, s1) \<Rightarrow> (False, s1))"

definition CalamaresLoader_tryLoad ::
  "host_env \<Rightarrow> string \<Rightarrow> addr \<Rightarrow> state \<Rightarrow> bool \<times> state" where
  "CalamaresLoader_tryLoad env localeName translator s =
     (case QTranslator_load env translator ('':/lang/calamares_'' @ localeName) s of
        (True, s1) \<Rightarrow> (True, cDebug ''Calamares using locale:'' localeName s1)
      | (False, s1) \<Rightarrow>
          QTranslator_load env translator '':/lang/calamares_en''
            (cDebug ''Calamares using default, system locale not found:'' localeName s1))"

definition TZLoader_tryLoad ::
  "host_env \<Rightarrow> string \<Rightarrow> addr \<Rightarrow> state \<Rightarrow> bool \<times> state" where
  "TZLoader_tryLoad env localeName translator s =
     (case QTranslator_load env translator ('':/lang/tz_'' @ localeName) s of
        (True, s1) \<Rightarrow> (True, cDebug ''Calamares Timezones using locale:'' localeName s1)
      | (False, s1) \<Rightarrow>
          QTranslator_load env translator '':/lang/tz_en''
            (cDebug ''Calamares Timezones using default, system locale not found:''
               localeName s1))"

text \<open>The virtual call \<^verbatim>\<open>loader.tryLoad( translator )\<close>.\<close>

fun tryLoad :: "host_env \<Rightarrow> TranslationLoader \<Rightarrow> addr \<Rightarrow> state \<Rightarrow> bool \<times> state" where
  "tryLoad env (BrandingLoader l n p) translator s = BrandingLoader_tryLoad env l n p translator s"
| "tryLoad env (CalamaresLoader l n) translator s = CalamaresLoader_tryLoad env n translator s"
| "tryLoad env (TZLoader l n) translator s = TZLoader_tryLoad env n translator s"

subsection \<open>The singleton translators\<close>

text \<open>\<^verbatim>\<open>loadSingletonTranslator\<close> receives one of the three static pointers by reference.\<close>

datatype translator_ref = Ref_s_brandingTranslator | Ref_s_translator | Ref_s_tztranslator

fun read_ref :: "translator_ref \<Rightarrow> state \<Rightarrow> addr option" where
  "read_ref Ref_s_brandingTranslator s = s_brandingTranslator s"
| "read_ref Ref_s_translator s = s_translator s"
| "read_ref Ref_s_tztranslator s = s_tztranslator s"

fun write_ref :: "translator_ref \<Rightarrow> addr option \<Rightarrow> state \<Rightarrow> state" where
  "write_ref Ref_s_brandingTranslator v s = s\<lparr>s_brandingTranslator := v\<rparr>"
| "write_ref Ref_s_translator v s = s\<lparr>s_translator := v\<rparr>"
| "write_ref Ref_s_tztranslator v s = s\<lparr>s_tztranslator := v\<rparr>"

definition loadSingletonTranslator ::
  "host_env \<Rightarrow> TranslationLoader \<Rightarrow> translator_ref \<Rightarrow> state \<Rightarrow> state" where
  "loadSingletonTranslator env loader translator_p s =
     (case new_QTranslator s of
        (translator, s1) \<Rightarrow>
          (case tryLoad env loader translator s1 of
             (loaded, s2) \<Rightarrow>
               (let s3 = (case read_ref translator_p s2 of
                            Some old \<Rightarrow>
                              delete_QTranslator old (QCoreApplication_removeTranslator old s2)
                          | None \<Rightarrow> s2);
                    s4 = QCoreApplication_installTranslator translator s3
                in write_ref translator_p (Some translator) s4)))"

definition installTranslator ::
  "host_env \<Rightarrow> QLocale \<Rightarrow> string \<Rightarrow> addr option \<Rightarrow> state \<Rightarrow> state" where
  "installTranslator env locale brandingTranslationsPrefix parent_arg s =
     (let s1 = loadSingletonTranslator env
                 (new_BrandingLoader locale brandingTranslationsPrefix)
                 Ref_s_brandingTranslator s;
          s2 = loadSingletonTranslator env (new_TZLoader locale) Ref_s_tztranslator s1;
          l = new_CalamaresLoader locale;
          s3 = loadSingletonTranslator env l Ref_s_translator s2
      in s3\<lparr>s_translatorLocaleName := m_localeName l\<rparr>)"

definition translatorLocaleName :: "state \<Rightarrow> string" where
  "translatorLocaleName s = s_translatorLocaleName s"

subsection \<open>Retranslator\<close>

text \<open>A store cell is updated in place; an address that holds no object is left alone.\<close>

definition update_object :: "addr \<Rightarrow> (QObject \<Rightarrow> QObject) \<Rightarrow> state \<Rightarrow> state" where
  "update_object p f s =
     (case deref (objects s) p of
        None \<Rightarrow> s
      | Some ob \<Rightarrow> s\<lparr>objects := (objects s)[p := Some (f ob)]\<rparr>)"

text \<open>The loop of \<^verbatim>\<open>retranslatorFor\<close> over \<^verbatim>\<open>parent->children()\<close>: the first child
  that \<^verbatim>\<open>qobject_cast< Retranslator* >\<close> accepts. The outer \<open>None\<close> is the undefined
  behaviour of casting a pointer to no object.\<close>

fun scan_children :: "QObject option list \<Rightarrow> addr list \<Rightarrow> addr option option" where
  "scan_children objs [] = Some None"
| "scan_children objs (child # rest) =
     (case deref objs child of
        None \<Rightarrow> None
      | Some ob \<Rightarrow>
          (case derived ob of
             Retranslator funcs \<Rightarrow> Some (Some child)
           | PlainObject \<Rightarrow> scan_children objs rest))"

text \<open>The constructor \<^verbatim>\<open>Retranslator::Retranslator( QObject* parent )\<close>: the base
  constructor \<^verbatim>\<open>QObject( parent )\<close> makes the new object the last child of the parent;
  \<^verbatim>\<open>parent->installEventFilter( this )\<close> puts it in front of the parent's filters
  (after taking out an earlier entry of the same object).\<close>

definition new_Retranslator :: "addr \<Rightarrow> state \<Rightarrow> (addr \<times> state) option" where
  "new_Retranslator parent_obj s =
     (case deref (objects s) parent_obj of
        None \<Rightarrow> None
      | Some po \<Rightarrow>
          (let this = length (objects s);
               s1 = s\<lparr>objects := objects s @
                      [Some \<lparr>parent = Some parent_obj, children = [], eventFilters = [],
                             derived = Retranslator []\<rparr>]\<rparr>;
               s2 = update_object parent_obj (\<lambda>ob. ob\<lparr>children := children ob @ [this]\<rparr>) s1;
               s3 = update_object parent_obj
                      (\<lambda>ob. ob\<lparr>eventFilters := this # removeAll this (eventFilters ob)\<rparr>) s2
           in Some (this, emit (NewRetranslator this parent_obj) s3)))"

definition retranslatorFor :: "addr \<Rightarrow> state \<Rightarrow> (addr \<times> state) option" where
  "retranslatorFor parent_obj s =
     (case deref (objects s) parent_obj of
        None \<Rightarrow> None
      | Some po \<Rightarrow>
          (case scan_children (objects s) (children po) of
             None \<Rightarrow> None
           | Some (Some r) \<Rightarrow> Some (r, s)
           | Some None \<Rightarrow> new_Retranslator parent_obj s))"

text \<open>\<^verbatim>\<open>m_retranslateFuncList.append( retranslateFunc )\<close> on the Retranslator at \<open>r\<close>.\<close>

fun append_func :: "callback \<Rightarrow> QObject_class \<Rightarrow> QObject_class" where
  "append_func f (Retranslator funcs) = Retranslator (funcs @ [f])"
| "append_func f PlainObject = PlainObject"

text \<open>Calling a callback \<^verbatim>\<open>func()\<close>: the call is recorded in the trace, and it returns
  or throws. What the callback does to the user interface is outside this file; it is
  taken to leave the translators and the object tree as they are.\<close>

definition invoke :: "callback \<Rightarrow> state \<Rightarrow> unit completion \<times> state" where
  "invoke f s = (if throws f then Thrown else Returned (), emit (Invoke f) s)"

text \<open>The loop \<^verbatim>\<open>foreach ( std::function< void() > func, m_retranslateFuncList ) func();\<close>
  the source has no handler, so an exception of a callback leaves the loop at once.\<close>

fun invoke_each :: "callback list \<Rightarrow> state \<Rightarrow> unit completion \<times> state" where
  "invoke_each [] s = (Returned (), s)"
| "invoke_each (func # rest) s =
     (case invoke func s of
        (Thrown, s1) \<Rightarrow> (Thrown, s1)
      | (Returned u, s1) \<Rightarrow> invoke_each rest s1)"

text \<open>\<^verbatim>\<open>Retranslator::attachRetranslator\<close>: the call of the callback is the last statement,
  so the function ends as that call ends.\<close>

definition attachRetranslator ::
  "addr \<Rightarrow> callback \<Rightarrow> state \<Rightarrow> (unit completion \<times> state) option" where
  "attachRetranslator parent_obj retranslateFunc s =
     (case retranslatorFor parent_obj s of
        None \<Rightarrow> None
      | Some (r, s1) \<Rightarrow>
          Some (invoke retranslateFunc
                  (update_object r (\<lambda>ob. ob\<lparr>derived := append_func retranslateFunc (derived ob)\<rparr>) s1)))"

text \<open>The base implementation \<^verbatim>\<open>QObject::eventFilter\<close> of Qt returns false: the event
  is not filtered out.\<close>

definition QObject_eventFilter :: "addr \<Rightarrow> QEvent \<Rightarrow> bool" where
  "QObject_eventFilter obj e = False"

text \<open>\<^verbatim>\<open>Retranslator::eventFilter\<close>, called on the Retranslator at \<open>this\<close>. It is \<open>None\<close>
  when \<open>this\<close> is not the address of a Retranslator. The event loop of the host is not
  part of the model: the delivery of an event to an object with this filter installed
  is a call of \<open>eventFilter\<close> with that object and that event. When a callback throws,
  the exception leaves \<open>eventFilter\<close>: the callbacks after it, the emission of
  \<^verbatim>\<open>languageChange\<close> and the call of the base class are skipped.\<close>

definition eventFilter ::
  "addr \<Rightarrow> addr \<Rightarrow> QEvent \<Rightarrow> state \<Rightarrow> (bool completion \<times> state) option" where
  "eventFilter this obj e s =
     (case deref (objects s) this of
        None \<Rightarrow> None
      | Some me \<Rightarrow>
          (case derived me of
             PlainObject \<Rightarrow> None
           | Retranslator m_retranslateFuncList \<Rightarrow>
               (case (if Some obj = parent me
                      then (if event_type e = LanguageChange
                            then (case invoke_each m_retranslateFuncList s of
                                    (Thrown, s1) \<Rightarrow> (Thrown, s1)
                                  | (Returned u, s1) \<Rightarrow>
                                      (Returned (), emit (Emit_languageChange this) s1))
                            else (Returned (), s))
                      else (Returned (), s)) of
                  (Thrown, s2) \<Rightarrow> Some (Thrown, s2)
                | (Returned u, s2) \<Rightarrow> Some (Returned (QObject_eventFilter obj e), s2))))"

subsection \<open>Program runs\<close>

text \<open>The state in which the program starts: the static pointers are null and the
  static name is the default-constructed, empty \<^verbatim>\<open>QString\<close>. The translators and objects
  that other code has created, and the translators other code has installed, are
  parameters.\<close>

definition initial_state ::
  "QTranslator option list \<Rightarrow> addr list \<Rightarrow> QObject option list \<Rightarrow> state" where
  "initial_state host_translators host_installed host_objects =
     \<lparr>translators = host_translators,
      app_translators = host_installed,
      s_brandingTranslator = None,
      s_translator = None,
      s_tztranslator = None,
      s_translatorLocaleName = [],
      objects = host_objects,
      trace = []\<rparr>"

text \<open>The entry points of the file, as calls with their arguments. A run is a sequence
  of calls; the caller is taken to catch an exception that leaves an entry point, so
  the run goes on from the state in which the exception left it.\<close>

datatype call =
    Call_installTranslator host_env QLocale string "addr option"
  | Call_translatorLocaleName
  | Call_retranslatorFor addr
  | Call_attachRetranslator addr callback
  | Call_eventFilter addr addr QEvent

fun perform :: "call \<Rightarrow> state \<Rightarrow> state option" where
  "perform (Call_installTranslator env locale pre parent_arg) s =
     Some (installTranslator env locale pre parent_arg s)"
| "perform Call_translatorLocaleName s = Some s"
| "perform (Call_retranslatorFor parent_obj) s = map_option snd (retranslatorFor parent_obj s)"
| "perform (Call_attachRetranslator parent_obj f) s =
     map_option snd (attachRetranslator parent_obj f s)"
| "perform (Call_eventFilter this obj e) s = map_option snd (eventFilter this obj e s)"

fun run :: "call list \<Rightarrow> state \<Rightarrow> state option" where
  "run [] s = Some s"
| "run (c # cs) s = (case perform c s of None \<Rightarrow> None | Some s1 \<Rightarrow> run cs s1)"

text \<open>The translator list of the application at every moment of a run, recomputed
  from the trace: the list before the first event and after each event.\<close>

fun replay :: "event \<Rightarrow> addr list \<Rightarrow> addr list" where
  "replay (InstallTranslator t) st = t # st"
| "replay (RemoveTranslator t) st = removeAll t st"
| "replay (DeleteTranslator t) st = removeAll t st"
| "replay e st = st"

fun stack_history :: "addr list \<Rightarrow> event list \<Rightarrow> addr list list" where
  "stack_history st [] = [st]"
| "stack_history st (e # es) = st # stack_history (replay e st) es"

section \<open>Notions used to state the properties\<close>

subsection \<open>The registry of installed translators\<close>

text \<open>What a load attempt on the translator at \<open>t\<close> may change: the cell of \<open>t\<close> and the
  trace, by events that leave the translator list of the application alone.\<close>

definition frame :: "addr \<Rightarrow> state \<Rightarrow> state \<Rightarrow> bool" where
  "frame t s s' \<longleftrightarrow>
     app_translators s' = app_translators s
   \<and> s_brandingTranslator s' = s_brandingTranslator s
   \<and> s_translator s' = s_translator s
   \<and> s_tztranslator s' = s_tztranslator s
   \<and> s_translatorLocaleName s' = s_translatorLocaleName s
   \<and> objects s' = objects s
   \<and> length (translators s') = length (translators s)
   \<and> (\<forall>p. p \<noteq> t \<longrightarrow> translators s' ! p = translators s ! p)
   \<and> (\<exists>evs. trace s' = trace s @ evs \<and> (\<forall>e\<in>set evs. \<forall>st. replay e st = st))"

text \<open>The events by which \<^verbatim>\<open>loadSingletonTranslator\<close> swaps the translator \<open>t\<close> in for
  the one the static pointer held.\<close>

definition swap_events :: "addr option \<Rightarrow> addr \<Rightarrow> event list" where
  "swap_events old t =
     (case old of None \<Rightarrow> [] | Some p \<Rightarrow> [RemoveTranslator p, DeleteTranslator p])
     @ [InstallTranslator t]"

text \<open>The invariant of the three static pointers. An address counts as one of this
  file's translators when it is at least \<open>base\<close>, the size of the translator store when
  the program starts. The pointers that are not null are addresses of the store, no two
  of them are equal, and they are exactly this file's translators in the list of the
  application, each once.\<close>

definition registry_inv :: "nat \<Rightarrow> state \<Rightarrow> bool" where
  "registry_inv base s \<longleftrightarrow>
     base \<le> length (translators s)
   \<and> (\<forall>r t. read_ref r s = Some t \<longrightarrow> base \<le> t \<and> t < length (translators s))
   \<and> (\<forall>r r' t. read_ref r s = Some t \<and> read_ref r' s = Some t \<longrightarrow> r = r')
   \<and> (\<forall>t. base \<le> t \<longrightarrow> (t \<in> set (app_translators s)) = (\<exists>r. read_ref r s = Some t))
   \<and> distinct (filter (\<lambda>t. base \<le> t) (app_translators s))"

text \<open>At most three of this file's translators in a translator list.\<close>

definition bounded :: "nat \<Rightarrow> addr list \<Rightarrow> bool" where
  "bounded base st \<longleftrightarrow> length (filter (\<lambda>t. base \<le> t) st) \<le> 3"

text \<open>The invariant of a run that starts with the translator list \<open>st0\<close>: the registry
  invariant, the list of the application is the one the trace gives, and the bound
  holds at every moment of the trace.\<close>

definition run_inv :: "nat \<Rightarrow> addr list \<Rightarrow> state \<Rightarrow> bool" where
  "run_inv base st0 s \<longleftrightarrow>
     registry_inv base s
   \<and> fold replay (trace s) st0 = app_translators s
   \<and> (\<forall>st\<in>set (stack_history st0 (trace s)). bounded base st)"

text \<open>A step that leaves the translators, their list and the static variables as they
  are.\<close>

definition registry_untouched :: "state \<Rightarrow> state \<Rightarrow> bool" where
  "registry_untouched s s' \<longleftrightarrow>
     translators s' = translators s
   \<and> app_translators s' = app_translators s
   \<and> s_brandingTranslator s' = s_brandingTranslator s
   \<and> s_translator s' = s_translator s
   \<and> s_tztranslator s' = s_tztranslator s
   \<and> s_translatorLocaleName s' = s_translatorLocaleName s
   \<and> (\<exists>evs. trace s' = trace s @ evs \<and> (\<forall>e\<in>set evs. \<forall>st. replay e st = st))"

fun is_installTranslator :: "call \<Rightarrow> bool" where
  "is_installTranslator (Call_installTranslator env loc pre parent_arg) = True"
| "is_installTranslator c = False"

subsection \<open>The object tree\<close>

text \<open>Whether the object at an address is a Retranslator, the Retranslator children of
  a parent in the order of its child list, and the callback list of a Retranslator.\<close>

definition is_Retranslator :: "QObject option list \<Rightarrow> addr \<Rightarrow> bool" where
  "is_Retranslator objs c =
     (case deref objs c of
        None \<Rightarrow> False
      | Some ob \<Rightarrow> (case derived ob of Retranslator funcs \<Rightarrow> True | PlainObject \<Rightarrow> False))"

definition retranslators_of :: "QObject option list \<Rightarrow> addr \<Rightarrow> addr list" where
  "retranslators_of objs p =
     (case deref objs p of
        None \<Rightarrow> []
      | Some po \<Rightarrow> filter (is_Retranslator objs) (children po))"

definition callbacks_of :: "QObject option list \<Rightarrow> addr \<Rightarrow> callback list" where
  "callbacks_of objs r =
     (case deref objs r of
        None \<Rightarrow> []
      | Some ob \<Rightarrow> (case derived ob of Retranslator funcs \<Rightarrow> funcs | PlainObject \<Rightarrow> []))"

text \<open>A well-formed object store: every child of a live object is a live object whose
  parent pointer points back.\<close>

definition wf_objects :: "QObject option list \<Rightarrow> bool" where
  "wf_objects objs =
     list_all
       (\<lambda>p. case deref objs p of
              None \<Rightarrow> True
            | Some po \<Rightarrow>
                list_all
                  (\<lambda>c. case deref objs c of None \<Rightarrow> False | Some co \<Rightarrow> parent co = Some p)
                  (children po))
       [0..<length objs]"

text \<open>The store after \<^verbatim>\<open>new Retranslator( parent )\<close> for the live parent \<open>po\<close> at \<open>p\<close>,
  and the store after appending a callback to the list of the object at \<open>r\<close>.\<close>

definition with_new_Retranslator ::
  "QObject option list \<Rightarrow> addr \<Rightarrow> QObject \<Rightarrow> QObject option list" where
  "with_new_Retranslator objs p po =
     (objs @ [Some \<lparr>parent = Some p, children = [], eventFilters = [],
                    derived = Retranslator []\<rparr>])
       [p := Some (po\<lparr>children := children po @ [length objs],
                     eventFilters := length objs # removeAll (length objs) (eventFilters po)\<rparr>)]"

definition with_callback :: "QObject option list \<Rightarrow> addr \<Rightarrow> callback \<Rightarrow> QObject option list" where
  "with_callback objs r f =
     (case deref objs r of
        None \<Rightarrow> objs
      | Some ob \<Rightarrow> objs[r := Some (ob\<lparr>derived := append_func f (derived ob)\<rparr>)])"

text \<open>The callbacks invoked in a list of events, in order, and the callbacks that a
  call attaches to the parent \<open>p\<close>.\<close>

fun invoked :: "event \<Rightarrow> callback list" where
  "invoked (Invoke f) = [f]"
| "invoked e = []"

definition invocations :: "event list \<Rightarrow> callback list" where
  "invocations evs = concat (map invoked evs)"

fun attached_to :: "addr \<Rightarrow> call \<Rightarrow> callback list" where
  "attached_to p (Call_attachRetranslator q f) = (if q = p then [f] else [])"
| "attached_to p c = []"

subsection \<open>Concrete inputs\<close>

text \<open>A host in which the only catalogs are the embedded English ones and the
  directory \<^verbatim>\<open>/branding\<close> exists but holds no catalog; a locale without catalogs; an
  English locale; a store with one plain object and no translators; the states after
  one call of \<open>installTranslator\<close> and after a second one with the empty prefix; the
  states after attaching three callbacks that return, and after attaching one that
  throws and one that returns.\<close>

definition example_env :: host_env where
  "example_env =
     \<lparr>separator = CHR ''/'',
      dir_exists = (\<lambda>p. p = ''/branding''),
      absolutePath = (\<lambda>p. p),
      load_file = (\<lambda>f. f = '':/lang/calamares_en'' \<or> f = '':/lang/tz_en''),
      load_locale = (\<lambda>l f p d. False)\<rparr>"

definition example_locale :: QLocale where
  "example_locale = \<lparr>name = ''zz-ZZ'', language = OtherLanguage 0, script = AnyScript\<rparr>"

definition english_locale :: QLocale where
  "english_locale = \<lparr>name = ''en'', language = OtherLanguage 31, script = LatinScript\<rparr>"

definition example_objects :: "QObject option list" where
  "example_objects =
     [Some \<lparr>parent = None, children = [], eventFilters = [], derived = PlainObject\<rparr>]"

definition example_start :: state where
  "example_start = initial_state [] [] example_objects"

definition example_once :: state where
  "example_once =
     installTranslator example_env example_locale ''/branding/calamares-x_'' None example_start"

definition example_twice :: state where
  "example_twice = installTranslator example_env example_locale [] None example_once"

definition example_attached :: state where
  "example_attached =
     the (run [Call_attachRetranslator 0 (Returning 10),
               Call_attachRetranslator 0 (Returning 11),
               Call_attachRetranslator 0 (Returning 12)]
            (snd (the (retranslatorFor 0 example_start))))"

definition example_throwing :: state where
  "example_throwing =
     the (run [Call_attachRetranslator 0 (Throwing 20),
               Call_attachRetranslator 0 (Returning 21)]
            (snd (the (retranslatorFor 0 example_start))))"

section \<open>Properties\<close>

subsection \<open>The munged locale name\<close>

lemma replace_no_occurrence: "bef \<notin> set s \<Longrightarrow> QString_replace bef aft s = s"
  by (induction s) (auto simp: QString_replace_def)

lemma replace_dash_eq_C: "QString_replace CHR ''-'' CHR ''_'' s = ''C'' \<longleftrightarrow> s = ''C''"
  by (cases s) (auto simp: QString_replace_def)

text \<open>
  Claim C2. \<open>mungeLocaleName\<close> follows the normalisation rules. A locale whose language
  is Serbian and whose script is Latin gives \<open>sr@latin\<close>, whatever its name. For every
  other locale: the name \<open>C\<close> gives \<open>en\<close>; any other name is returned with each dash
  replaced by an underscore, hence unchanged when it has no dash; in particular
  \<open>en-US\<close> gives \<open>en_US\<close> and \<open>fr\<close> gives \<open>fr\<close>.
\<close>

theorem mungeLocaleName_rules:
  "(language l = Serbian \<and> script l = LatinScript \<longrightarrow> mungeLocaleName l = ''sr@latin'')
   \<and> (\<not> (language l = Serbian \<and> script l = LatinScript) \<longrightarrow>
        (name l = ''C'' \<longrightarrow> mungeLocaleName l = ''en'')
      \<and> (name l \<noteq> ''C'' \<longrightarrow>
           mungeLocaleName l = map (\<lambda>c. if c = CHR ''-'' then CHR ''_'' else c) (name l))
      \<and> (name l \<noteq> ''C'' \<and> CHR ''-'' \<notin> set (name l) \<longrightarrow> mungeLocaleName l = name l)
      \<and> (name l = ''en-US'' \<longrightarrow> mungeLocaleName l = ''en_US'')
      \<and> (name l = ''fr'' \<longrightarrow> mungeLocaleName l = ''fr''))"
  using replace_dash_eq_C [of "name l"]
        replace_no_occurrence [of "CHR ''-''" "name l" "CHR ''_''"]
  by (auto simp: mungeLocaleName_def Let_def QString_replace_def)

theorem mungeLocaleName_rules_witness:
  "mungeLocaleName \<lparr>name = ''sr_RS'', language = Serbian, script = LatinScript\<rparr> = ''sr@latin''
   \<and> mungeLocaleName \<lparr>name = ''C'', language = CLanguage, script = AnyScript\<rparr> = ''en''
   \<and> mungeLocaleName \<lparr>name = ''en-US'', language = OtherLanguage 31, script = LatinScript\<rparr>
       = ''en_US''
   \<and> mungeLocaleName \<lparr>name = ''fr'', language = OtherLanguage 37, script = AnyScript\<rparr> = ''fr''
   \<and> mungeLocaleName \<lparr>name = ''sr-Cyrl'', language = Serbian, script = CyrillicScript\<rparr>
       = ''sr_Cyrl''"
  using mungeLocaleName_rules [of "\<lparr>name = ''sr_RS'', language = Serbian, script = LatinScript\<rparr>"]
        mungeLocaleName_rules [of "\<lparr>name = ''C'', language = CLanguage, script = AnyScript\<rparr>"]
        mungeLocaleName_rules
          [of "\<lparr>name = ''en-US'', language = OtherLanguage 31, script = LatinScript\<rparr>"]
        mungeLocaleName_rules [of "\<lparr>name = ''fr'', language = OtherLanguage 37, script = AnyScript\<rparr>"]
        mungeLocaleName_rules
          [of "\<lparr>name = ''sr-Cyrl'', language = Serbian, script = CyrillicScript\<rparr>"]
  by simp

subsection \<open>The name that installTranslator records\<close>

text \<open>
  Claim C1. For every locale, every branding prefix and every host environment (so
  whichever of the load attempts succeed or fail), in the state that
  \<open>installTranslator\<close> returns \<open>translatorLocaleName\<close> is the munged name of the locale.
\<close>

theorem installTranslator_sets_name:
  "translatorLocaleName (installTranslator env locale pre parent_arg s) = mungeLocaleName locale"
  by (simp add: translatorLocaleName_def installTranslator_def Let_def new_CalamaresLoader_def)

text \<open>
  Claim C9. The third argument of \<open>installTranslator\<close> is never read: two calls that
  agree on environment, locale, prefix and starting state return the same state (the
  static pointers, the stores, the installed translators, the recorded name and the
  trace), whatever the two parent arguments are.
\<close>

theorem installTranslator_ignores_parent:
  "installTranslator env locale pre parent1 s = installTranslator env locale pre parent2 s"
  by (simp add: installTranslator_def)

subsection \<open>Load attempts change one translator and the trace\<close>

lemma frame_refl: "frame t s s"
  by (simp add: frame_def)

lemma frame_trans: "frame t s s1 \<Longrightarrow> frame t s1 s2 \<Longrightarrow> frame t s s2"
  unfolding frame_def by (elim conjE exE) (auto)

lemma frame_cDebug: "frame t s (cDebug msg arg s)"
  by (simp add: frame_def cDebug_def emit_def)

lemma frame_set_catalog: "frame t s s1 \<Longrightarrow> frame t s (set_catalog t c s1)"
  by (auto simp: frame_def set_catalog_def split: option.splits)

lemma frame_emit: "frame t s s1 \<Longrightarrow> \<forall>st. replay e st = st \<Longrightarrow> frame t s (emit e s1)"
  by (auto simp: frame_def emit_def)

lemma frame_load: "QTranslator_load env t f s = (b, s') \<Longrightarrow> frame t s s'"
  by (auto simp: QTranslator_load_def Let_def intro!: frame_emit frame_set_catalog frame_refl)

lemma frame_load_locale: "QTranslator_load_locale env t l f p d s = (b, s') \<Longrightarrow> frame t s s'"
  by (auto simp: QTranslator_load_locale_def Let_def intro!: frame_emit frame_set_catalog frame_refl)

lemma frame_QDir_exists: "QDir_exists env p s = (b, s') \<Longrightarrow> frame t s s'"
  by (auto simp: QDir_exists_def Let_def intro!: frame_emit frame_refl)

lemma frame_CalamaresLoader: "CalamaresLoader_tryLoad env n t s = (b, s') \<Longrightarrow> frame t s s'"
  unfolding CalamaresLoader_tryLoad_def
  by (auto split: prod.splits bool.splits
           intro: frame_trans [OF frame_load frame_cDebug]
                  frame_trans [OF frame_trans [OF frame_load frame_cDebug] frame_load])

lemma frame_TZLoader: "TZLoader_tryLoad env n t s = (b, s') \<Longrightarrow> frame t s s'"
  unfolding TZLoader_tryLoad_def
  by (auto split: prod.splits bool.splits
           intro: frame_trans [OF frame_load frame_cDebug]
                  frame_trans [OF frame_trans [OF frame_load frame_cDebug] frame_load])

lemma frame_BrandingLoader: "BrandingLoader_tryLoad env l n p t s = (b, s') \<Longrightarrow> frame t s s'"
  unfolding BrandingLoader_tryLoad_def Let_def
  by (auto split: prod.splits bool.splits if_splits
           intro: frame_refl frame_QDir_exists
                  frame_trans [OF frame_QDir_exists frame_trans [OF frame_load_locale frame_cDebug]]
                  frame_trans [OF frame_QDir_exists frame_trans [OF frame_trans [OF frame_load_locale frame_cDebug] frame_load]])

lemma frame_tryLoad: "tryLoad env loader t s = (b, s') \<Longrightarrow> frame t s s'"
  by (cases loader) (auto intro: frame_BrandingLoader frame_CalamaresLoader frame_TZLoader)

subsection \<open>What loadSingletonTranslator does to the state\<close>

lemma read_write_ref: "read_ref r (write_ref ref v s) = (if r = ref then v else read_ref r s)"
  by (cases r; cases ref) simp_all

lemma write_ref_fields:
  "app_translators (write_ref ref v s) = app_translators s"
  "translators (write_ref ref v s) = translators s"
  "trace (write_ref ref v s) = trace s"
  "objects (write_ref ref v s) = objects s"
  "s_translatorLocaleName (write_ref ref v s) = s_translatorLocaleName s"
  by (cases ref; simp)+

lemma read_ref_frame: "frame t s s' \<Longrightarrow> read_ref r s' = read_ref r s"
  by (cases r) (simp_all add: frame_def)

lemma read_ref_new: "read_ref r (snd (new_QTranslator s)) = read_ref r s"
  by (cases r) (simp_all add: new_QTranslator_def Let_def emit_def)

lemma read_ref_host:
  "read_ref r (QCoreApplication_installTranslator t s) = read_ref r s"
  "read_ref r (QCoreApplication_removeTranslator t s) = read_ref r s"
  "read_ref r (delete_QTranslator t s) = read_ref r s"
  by (cases r; simp add: QCoreApplication_installTranslator_def emit_def
        delete_QTranslator_def QCoreApplication_removeTranslator_def)+

lemma loadSingletonTranslator_result:
  fixes s :: state
  defines "t \<equiv> length (translators s)"
  shows "\<exists>s2. frame t (snd (new_QTranslator s)) s2
           \<and> snd (tryLoad env loader t (snd (new_QTranslator s))) = s2
           \<and> app_translators (loadSingletonTranslator env loader ref s) =
               t # (case read_ref ref s of None \<Rightarrow> app_translators s
                                         | Some old \<Rightarrow> removeAll old (app_translators s))
           \<and> (\<forall>r. read_ref r (loadSingletonTranslator env loader ref s) =
                    (if r = ref then Some t else read_ref r s))
           \<and> translators (loadSingletonTranslator env loader ref s) =
               (case read_ref ref s of None \<Rightarrow> translators s2
                                     | Some old \<Rightarrow> (translators s2)[old := None])
           \<and> objects (loadSingletonTranslator env loader ref s) = objects s
           \<and> s_translatorLocaleName (loadSingletonTranslator env loader ref s) =
               s_translatorLocaleName s
           \<and> trace (loadSingletonTranslator env loader ref s) =
               trace s2 @ swap_events (read_ref ref s) t"
proof -
  obtain b s2 where tl: "tryLoad env loader t (snd (new_QTranslator s)) = (b, s2)"
    by (cases "tryLoad env loader t (snd (new_QTranslator s))") auto
  have fr: "frame t (snd (new_QTranslator s)) s2"
    using frame_tryLoad [OF tl] .
  have rr: "read_ref ref s2 = read_ref ref s"
    using read_ref_frame [OF fr] read_ref_new by simp
  have nq: "new_QTranslator s = (t, snd (new_QTranslator s))"
    by (simp add: new_QTranslator_def Let_def t_def)
  have fields: "app_translators s2 = app_translators s" "objects s2 = objects s"
       "s_translatorLocaleName s2 = s_translatorLocaleName s"
    using fr by (simp_all add: frame_def new_QTranslator_def Let_def emit_def)
  have rr_all: "\<And>r. read_ref r s2 = read_ref r s"
    using read_ref_frame [OF fr] read_ref_new by simp
  have unf: "loadSingletonTranslator env loader ref s =
      write_ref ref (Some t) (QCoreApplication_installTranslator t
         (case read_ref ref s of
            Some old \<Rightarrow> delete_QTranslator old (QCoreApplication_removeTranslator old s2)
          | None \<Rightarrow> s2))"
    unfolding loadSingletonTranslator_def
    by (subst nq) (simp add: tl rr Let_def)
  show ?thesis
  proof (intro exI [of _ s2] conjI allI)
    show "frame t (snd (new_QTranslator s)) s2" by (rule fr)
    show "snd (tryLoad env loader t (snd (new_QTranslator s))) = s2" by (simp add: tl)
    show "app_translators (loadSingletonTranslator env loader ref s) =
               t # (case read_ref ref s of None \<Rightarrow> app_translators s
                                         | Some old \<Rightarrow> removeAll old (app_translators s))"
      by (simp add: unf write_ref_fields QCoreApplication_installTranslator_def emit_def
            delete_QTranslator_def QCoreApplication_removeTranslator_def fields
            split: option.splits)
    show "\<And>r. read_ref r (loadSingletonTranslator env loader ref s) =
                    (if r = ref then Some t else read_ref r s)"
      unfolding unf read_write_ref
      by (cases "read_ref ref s") (simp_all add: read_ref_host rr_all)
    show "translators (loadSingletonTranslator env loader ref s) =
               (case read_ref ref s of None \<Rightarrow> translators s2
                                     | Some old \<Rightarrow> (translators s2)[old := None])"
      by (simp add: unf write_ref_fields QCoreApplication_installTranslator_def emit_def
            delete_QTranslator_def QCoreApplication_removeTranslator_def
            split: option.splits)
    show "objects (loadSingletonTranslator env loader ref s) = objects s"
      by (simp add: unf write_ref_fields QCoreApplication_installTranslator_def emit_def
            delete_QTranslator_def QCoreApplication_removeTranslator_def fields
            split: option.splits)
    show "s_translatorLocaleName (loadSingletonTranslator env loader ref s) =
               s_translatorLocaleName s"
      by (simp add: unf write_ref_fields QCoreApplication_installTranslator_def emit_def
            delete_QTranslator_def QCoreApplication_removeTranslator_def fields
            split: option.splits)
    show "trace (loadSingletonTranslator env loader ref s) =
               trace s2 @ swap_events (read_ref ref s) t"
      by (simp add: unf write_ref_fields QCoreApplication_installTranslator_def emit_def
            delete_QTranslator_def QCoreApplication_removeTranslator_def swap_events_def
            split: option.splits)
  qed
qed

lemma lST_app:
  "app_translators (loadSingletonTranslator env loader ref s) =
     length (translators s) #
       (case read_ref ref s of None \<Rightarrow> app_translators s
        | Some old \<Rightarrow> removeAll old (app_translators s))"
  using loadSingletonTranslator_result [of s env loader ref] by blast

lemma lST_read_ref:
  "read_ref r (loadSingletonTranslator env loader ref s) =
     (if r = ref then Some (length (translators s)) else read_ref r s)"
  using loadSingletonTranslator_result [of s env loader ref] by blast

lemma lST_translators:
  "\<exists>s2. frame (length (translators s)) (snd (new_QTranslator s)) s2
        \<and> snd (tryLoad env loader (length (translators s)) (snd (new_QTranslator s))) = s2
        \<and> translators (loadSingletonTranslator env loader ref s) =
            (case read_ref ref s of None \<Rightarrow> translators s2
             | Some old \<Rightarrow> (translators s2)[old := None])"
  using loadSingletonTranslator_result [of s env loader ref] by blast

lemma lST_length:
  "length (translators (loadSingletonTranslator env loader ref s)) = Suc (length (translators s))"
proof -
  obtain s2 where "frame (length (translators s)) (snd (new_QTranslator s)) s2"
    and "translators (loadSingletonTranslator env loader ref s) =
            (case read_ref ref s of None \<Rightarrow> translators s2
             | Some old \<Rightarrow> (translators s2)[old := None])"
    using lST_translators [of s env loader ref] by blast
  then show ?thesis
    by (simp add: frame_def new_QTranslator_def Let_def emit_def split: option.splits)
qed

lemma lST_other_cell:
  assumes "p < length (translators s)" and "read_ref ref s \<noteq> Some p"
  shows "deref (translators (loadSingletonTranslator env loader ref s)) p =
         deref (translators s) p"
proof -
  obtain s2 where fr: "frame (length (translators s)) (snd (new_QTranslator s)) s2"
    and tr: "translators (loadSingletonTranslator env loader ref s) =
            (case read_ref ref s of None \<Rightarrow> translators s2
             | Some old \<Rightarrow> (translators s2)[old := None])"
    using lST_translators [of s env loader ref] by blast
  have len: "length (translators s2) = Suc (length (translators s))"
    using fr by (simp add: frame_def new_QTranslator_def Let_def emit_def)
  have cell: "translators s2 ! p = translators s ! p"
    using fr assms(1) by (simp add: frame_def new_QTranslator_def Let_def emit_def nth_append)
  show ?thesis
    unfolding tr using assms len cell
    by (auto simp: deref_def split: option.splits)
qed

lemma lST_deleted:
  assumes "read_ref ref s = Some old" and "old < length (translators s)"
  shows "deref (translators (loadSingletonTranslator env loader ref s)) old = None"
proof -
  obtain s2 where fr: "frame (length (translators s)) (snd (new_QTranslator s)) s2"
    and tr: "translators (loadSingletonTranslator env loader ref s) =
            (case read_ref ref s of None \<Rightarrow> translators s2
             | Some old \<Rightarrow> (translators s2)[old := None])"
    using lST_translators [of s env loader ref] by blast
  have len: "length (translators s2) = Suc (length (translators s))"
    using fr by (simp add: frame_def new_QTranslator_def Let_def emit_def)
  show ?thesis
    unfolding tr using assms len by (simp add: deref_def)
qed

lemma lST_mem:
  "p \<in> set (app_translators (loadSingletonTranslator env loader ref s)) \<longleftrightarrow>
     p = length (translators s) \<or> (p \<in> set (app_translators s) \<and> read_ref ref s \<noteq> Some p)"
  unfolding lST_app by (auto split: option.splits)

lemma tryLoad_empty_prefix:
  "tryLoad env (new_BrandingLoader loc []) t s = (False, s)"
  by (simp add: new_BrandingLoader_def BrandingLoader_tryLoad_def)

lemma lST_empty_prefix_cell:
  assumes "read_ref ref s \<noteq> Some (length (translators s))"
  shows "deref (translators (loadSingletonTranslator env (new_BrandingLoader loc []) ref s))
           (length (translators s)) = Some \<lparr>catalog = None\<rparr>"
proof -
  obtain s2 where
    s2: "snd (tryLoad env (new_BrandingLoader loc []) (length (translators s))
           (snd (new_QTranslator s))) = s2"
    and tr: "translators (loadSingletonTranslator env (new_BrandingLoader loc []) ref s) =
            (case read_ref ref s of None \<Rightarrow> translators s2
             | Some old \<Rightarrow> (translators s2)[old := None])"
    using lST_translators [of s env "new_BrandingLoader loc []" ref] by blast
  have "translators s2 = translators s @ [Some \<lparr>catalog = None\<rparr>]"
    unfolding s2 [symmetric]
    by (simp add: tryLoad_empty_prefix new_QTranslator_def Let_def emit_def)
  then show ?thesis
    unfolding tr using assms by (auto simp: deref_def nth_append split: option.splits)
qed

lemma lST_trace_empty_prefix:
  "trace (loadSingletonTranslator env (new_BrandingLoader loc []) ref s) =
     trace s @ NewTranslator (length (translators s))
       # swap_events (read_ref ref s) (length (translators s))"
  using loadSingletonTranslator_result [of s env "new_BrandingLoader loc []" ref]
  by (auto simp: tryLoad_empty_prefix new_QTranslator_def Let_def emit_def)

lemma objects_loadSingletonTranslator:
  "objects (loadSingletonTranslator env loader ref s) = objects s"
  using loadSingletonTranslator_result [of s env loader ref] by blast

lemma objects_installTranslator:
  "objects (installTranslator env loc pre parent_arg s) = objects s"
  by (simp add: installTranslator_def Let_def objects_loadSingletonTranslator)

lemma installTranslator_length:
  "length (translators (installTranslator env loc pre parent_arg s)) =
   length (translators s) + 3"
  by (simp add: installTranslator_def Let_def lST_length)

lemma installTranslator_refs:
  "s_brandingTranslator (installTranslator env loc pre parent_arg s) = Some (length (translators s))"
  "s_tztranslator (installTranslator env loc pre parent_arg s) = Some (Suc (length (translators s)))"
  "s_translator (installTranslator env loc pre parent_arg s)
     = Some (Suc (Suc (length (translators s))))"
proof -
  let ?sa = "loadSingletonTranslator env (new_BrandingLoader loc pre) Ref_s_brandingTranslator s"
  let ?sb = "loadSingletonTranslator env (new_TZLoader loc) Ref_s_tztranslator ?sa"
  let ?sc = "loadSingletonTranslator env (new_CalamaresLoader loc) Ref_s_translator ?sb"
  have s': "installTranslator env loc pre parent_arg s =
            ?sc\<lparr>s_translatorLocaleName := m_localeName (new_CalamaresLoader loc)\<rparr>"
    by (simp add: installTranslator_def Let_def)
  have "read_ref Ref_s_brandingTranslator ?sc = Some (length (translators s))"
       "read_ref Ref_s_tztranslator ?sc = Some (Suc (length (translators s)))"
       "read_ref Ref_s_translator ?sc = Some (Suc (Suc (length (translators s))))"
    by (simp_all add: lST_read_ref lST_length)
  then show
    "s_brandingTranslator (installTranslator env loc pre parent_arg s)
       = Some (length (translators s))"
    "s_tztranslator (installTranslator env loc pre parent_arg s)
       = Some (Suc (length (translators s)))"
    "s_translator (installTranslator env loc pre parent_arg s)
       = Some (Suc (Suc (length (translators s))))"
    by (simp_all add: s')
qed

subsection \<open>The registry invariant\<close>

lemma filter_removeAll: "filter P (removeAll x xs) = removeAll x (filter P xs)"
  by (induction xs) auto

lemma UNIV_translator_ref:
  "(UNIV :: translator_ref set) = {Ref_s_brandingTranslator, Ref_s_translator, Ref_s_tztranslator}"
  by (auto intro: translator_ref.exhaust)

lemma registry_inv_count:
  assumes "registry_inv base s"
  shows "length (filter (\<lambda>t. base \<le> t) (app_translators s)) \<le> 3"
proof -
  let ?own = "filter (\<lambda>t. base \<le> t) (app_translators s)"
  have d: "distinct ?own" using assms by (simp add: registry_inv_def)
  have sub: "set ?own \<subseteq> (\<lambda>r. the (read_ref r s)) ` UNIV"
  proof
    fix t assume "t \<in> set ?own"
    then have "base \<le> t" "t \<in> set (app_translators s)" by auto
    then obtain r where "read_ref r s = Some t"
      using assms unfolding registry_inv_def by blast
    then have "t = the (read_ref r s)" by simp
    then show "t \<in> (\<lambda>r. the (read_ref r s)) ` UNIV" by blast
  qed
  have "card (set ?own) \<le> card ((\<lambda>r. the (read_ref r s)) ` (UNIV :: translator_ref set))"
    by (rule card_mono [OF _ sub]) (simp add: UNIV_translator_ref)
  also have "\<dots> \<le> card (UNIV :: translator_ref set)"
    by (rule card_image_le) (simp add: UNIV_translator_ref)
  also have "\<dots> \<le> 3"
    by (simp add: UNIV_translator_ref)
  finally have "card (set ?own) \<le> 3" .
  then show ?thesis by (simp only: distinct_card [OF d])
qed

lemma registry_inv_initial:
  assumes a: "\<forall>t\<in>set host_installed. t < length host_translators"
  shows "registry_inv (length host_translators)
     (initial_state host_translators host_installed host_objects)"
proof -
  have f: "filter (\<lambda>t. length host_translators \<le> t) host_installed = []"
    using a by (auto simp: filter_empty_conv)
  have rr: "\<And>r. read_ref r (initial_state host_translators host_installed host_objects) = None"
    by (case_tac r) (simp_all add: initial_state_def)
  show ?thesis
    unfolding registry_inv_def rr
    using a f by (auto simp: initial_state_def)
qed

lemma registry_inv_loadSingletonTranslator:
  assumes inv: "registry_inv base s"
  shows "registry_inv base (loadSingletonTranslator env loader ref s)"
proof -
  let ?s' = "loadSingletonTranslator env loader ref s"
  let ?t = "length (translators s)"
  let ?st = "case read_ref ref s of None \<Rightarrow> app_translators s
             | Some old \<Rightarrow> removeAll old (app_translators s)"
  obtain s2 where fr: "frame ?t (snd (new_QTranslator s)) s2"
    and app: "app_translators ?s' = ?t # ?st"
    and rr: "\<And>r. read_ref r ?s' = (if r = ref then Some ?t else read_ref r s)"
    and tr: "translators ?s' = (case read_ref ref s of None \<Rightarrow> translators s2
                                | Some old \<Rightarrow> (translators s2)[old := None])"
    using loadSingletonTranslator_result [of s env loader ref] by blast
  have len: "length (translators ?s') = Suc ?t"
    using fr unfolding tr by (simp add: frame_def new_QTranslator_def Let_def emit_def
          split: option.splits)
  from inv have
    i0: "base \<le> ?t" and
    i1: "\<And>r t. read_ref r s = Some t \<Longrightarrow> base \<le> t \<and> t < ?t" and
    i2: "\<And>r r' t. read_ref r s = Some t \<Longrightarrow> read_ref r' s = Some t \<Longrightarrow> r = r'" and
    i3: "\<And>t. base \<le> t \<Longrightarrow> (t \<in> set (app_translators s)) = (\<exists>r. read_ref r s = Some t)" and
    i4: "distinct (filter (\<lambda>t. base \<le> t) (app_translators s))"
    unfolding registry_inv_def by blast+
  have fresh: "?t \<notin> set (filter (\<lambda>t. base \<le> t) (app_translators s))"
  proof
    assume "?t \<in> set (filter (\<lambda>t. base \<le> t) (app_translators s))"
    then obtain r where "read_ref r s = Some ?t" using i3 [of ?t] by auto
    then show False using i1 by blast
  qed
  have A: "base \<le> length (translators ?s')" using i0 len by simp
  have B: "\<forall>r t. read_ref r ?s' = Some t \<longrightarrow> base \<le> t \<and> t < length (translators ?s')"
    unfolding len rr using i0 i1 by (auto simp: less_Suc_eq split: if_splits)
  have C: "\<forall>r r' t. read_ref r ?s' = Some t \<and> read_ref r' ?s' = Some t \<longrightarrow> r = r'"
    unfolding rr using i1 i2 by (auto split: if_splits dest: i1)
  have D: "\<forall>t. base \<le> t \<longrightarrow> (t \<in> set (app_translators ?s')) = (\<exists>r. read_ref r ?s' = Some t)"
  proof (intro allI impI)
    fix t assume bt: "base \<le> t"
    show "(t \<in> set (app_translators ?s')) = (\<exists>r. read_ref r ?s' = Some t)"
    proof (cases "read_ref ref s")
      case None
      have "(\<exists>r. read_ref r ?s' = Some t) = (t = ?t \<or> (\<exists>r. read_ref r s = Some t))"
        unfolding rr using None by (metis option.distinct(1) option.inject)
      then show ?thesis unfolding app using None i3 [OF bt] by auto
    next
      case (Some old)
      have "(\<exists>r. read_ref r ?s' = Some t) = (t = ?t \<or> (t \<noteq> old \<and> (\<exists>r. read_ref r s = Some t)))"
        unfolding rr using Some i2 by (metis option.inject)
      then show ?thesis unfolding app using Some i3 [OF bt] by auto
    qed
  qed
  have E: "distinct (filter (\<lambda>t. base \<le> t) (app_translators ?s'))"
  proof (cases "read_ref ref s")
    case None
    then show ?thesis unfolding app using i0 i4 fresh by simp
  next
    case (Some old)
    have "filter (\<lambda>t. base \<le> t) (removeAll old (app_translators s)) =
          removeAll old (filter (\<lambda>t. base \<le> t) (app_translators s))"
      by (rule filter_removeAll)
    then show ?thesis unfolding app using Some i0 i4 fresh by (simp add: distinct_removeAll)
  qed
  show ?thesis unfolding registry_inv_def using A B C D E by blast
qed

subsection \<open>The translator list along the trace\<close>

lemma stack_history_append:
  "set (stack_history st (xs @ ys)) =
   set (stack_history st xs) \<union> set (stack_history (fold replay xs st) ys)"
proof (induction xs arbitrary: st)
  case Nil
  show ?case by (cases ys) auto
next
  case (Cons x xs)
  then show ?case by auto
qed

lemma last_stack_history: "last (stack_history st evs) = fold replay evs st"
  by (induction evs arbitrary: st) (simp_all, case_tac evs, simp_all)

lemma fold_replay_neutral:
  "\<forall>e\<in>set evs. \<forall>st. replay e st = st \<Longrightarrow> fold replay evs st = st"
  by (induction evs arbitrary: st) auto

lemma stack_history_neutral:
  "\<forall>e\<in>set evs. \<forall>st. replay e st = st \<Longrightarrow> set (stack_history st evs) = {st}"
  by (induction evs arbitrary: st) auto

lemma bounded_removeAll: "bounded base st \<Longrightarrow> bounded base (removeAll p st)"
proof -
  have "length (filter (\<lambda>t. base \<le> t) (removeAll p st)) \<le> length (filter (\<lambda>t. base \<le> t) st)"
    by (induction st) auto
  then show "bounded base st \<Longrightarrow> bounded base (removeAll p st)"
    unfolding bounded_def by simp
qed

lemma run_inv_initial:
  assumes "\<forall>t\<in>set host_installed. t < length host_translators"
  shows "run_inv (length host_translators) host_installed
           (initial_state host_translators host_installed host_objects)"
proof -
  have "registry_inv (length host_translators)
          (initial_state host_translators host_installed host_objects)"
    using assms by (rule registry_inv_initial)
  moreover from this have "bounded (length host_translators) host_installed"
    using registry_inv_count [of "length host_translators"
            "initial_state host_translators host_installed host_objects"]
    by (simp add: bounded_def initial_state_def)
  ultimately show ?thesis
    by (simp add: run_inv_def initial_state_def)
qed

lemma run_inv_loadSingletonTranslator:
  assumes inv: "run_inv base st0 s"
  shows "run_inv base st0 (loadSingletonTranslator env loader ref s)"
proof -
  let ?s' = "loadSingletonTranslator env loader ref s"
  let ?t = "length (translators s)"
  let ?old = "read_ref ref s"
  let ?st = "app_translators s"
  obtain s2 where fr: "frame ?t (snd (new_QTranslator s)) s2"
    and app: "app_translators ?s' =
                ?t # (case ?old of None \<Rightarrow> ?st | Some old \<Rightarrow> removeAll old ?st)"
    and trc: "trace ?s' = trace s2 @ swap_events ?old ?t"
    using loadSingletonTranslator_result [of s env loader ref] by blast
  from fr obtain evs where
    evs: "trace s2 = trace s @ NewTranslator ?t # evs"
    and neutral: "\<forall>e\<in>set evs. \<forall>st. replay e st = st"
    by (auto simp: frame_def new_QTranslator_def Let_def emit_def)
  from inv have reg: "registry_inv base s"
    and cons: "fold replay (trace s) st0 = ?st"
    and hist: "\<forall>st\<in>set (stack_history st0 (trace s)). bounded base st"
    unfolding run_inv_def by blast+
  have reg': "registry_inv base ?s'"
    using reg by (rule registry_inv_loadSingletonTranslator)
  have b: "bounded base ?st"
    using registry_inv_count [OF reg] by (simp add: bounded_def)
  have b': "bounded base (app_translators ?s')"
    using registry_inv_count [OF reg'] by (simp add: bounded_def)
  have mid: "fold replay (trace s2) st0 = ?st"
    unfolding evs using cons fold_replay_neutral [OF neutral] by simp
  have midh: "set (stack_history st0 (trace s2)) = set (stack_history st0 (trace s)) \<union> {?st}"
    unfolding evs stack_history_append cons
    using stack_history_neutral [OF neutral] by auto
  have cons': "fold replay (trace ?s') st0 = app_translators ?s'"
    unfolding trc app using mid by (simp add: swap_events_def split: option.splits)
  have hist': "\<forall>st\<in>set (stack_history st0 (trace ?s')). bounded base st"
  proof (cases ?old)
    case None
    have "set (stack_history st0 (trace ?s')) =
          set (stack_history st0 (trace s)) \<union> {?st, app_translators ?s'}"
      unfolding trc stack_history_append mid midh app using None
      by (auto simp: swap_events_def)
    then show ?thesis using hist b b' by auto
  next
    case (Some old)
    have "set (stack_history st0 (trace ?s')) =
          set (stack_history st0 (trace s)) \<union> {?st, removeAll old ?st, app_translators ?s'}"
      unfolding trc stack_history_append mid midh app using Some
      by (auto simp: swap_events_def)
    then show ?thesis using hist b b' bounded_removeAll [OF b] by auto
  qed
  show ?thesis unfolding run_inv_def using reg' cons' hist' by blast
qed

lemma run_inv_name_update:
  "run_inv base st0 s \<Longrightarrow> run_inv base st0 (s\<lparr>s_translatorLocaleName := n\<rparr>)"
proof -
  have "\<And>r. read_ref r (s\<lparr>s_translatorLocaleName := n\<rparr>) = read_ref r s"
    by (case_tac r) simp_all
  then show "run_inv base st0 s \<Longrightarrow> run_inv base st0 (s\<lparr>s_translatorLocaleName := n\<rparr>)"
    by (simp add: run_inv_def registry_inv_def)
qed

lemma run_inv_installTranslator:
  "run_inv base st0 s \<Longrightarrow> run_inv base st0 (installTranslator env locale pre parent_arg s)"
  unfolding installTranslator_def Let_def
  by (intro run_inv_name_update run_inv_loadSingletonTranslator)

subsection \<open>The Retranslator operations leave the registry alone\<close>

lemma untouched_refl: "registry_untouched s s"
  by (simp add: registry_untouched_def)

lemma untouched_update_object:
  "registry_untouched s s1 \<Longrightarrow> registry_untouched s (update_object p f s1)"
  by (auto simp: registry_untouched_def update_object_def split: option.splits)

lemma untouched_emit:
  "registry_untouched s s1 \<Longrightarrow> \<forall>st. replay e st = st \<Longrightarrow> registry_untouched s (emit e s1)"
  by (auto simp: registry_untouched_def emit_def)

lemma untouched_objects:
  "registry_untouched s s1 \<Longrightarrow> registry_untouched s (s1\<lparr>objects := objs\<rparr>)"
  by (auto simp: registry_untouched_def)

lemma untouched_new_Retranslator:
  "new_Retranslator p s = Some (r, s') \<Longrightarrow> registry_untouched s s'"
  unfolding new_Retranslator_def Let_def
  by (auto split: option.splits
           intro!: untouched_emit untouched_update_object untouched_objects untouched_refl)

lemma untouched_retranslatorFor:
  "retranslatorFor p s = Some (r, s') \<Longrightarrow> registry_untouched s s'"
  unfolding retranslatorFor_def
  by (auto split: option.splits intro: untouched_refl untouched_new_Retranslator)

lemma untouched_attachRetranslator:
  assumes "attachRetranslator p f s = Some (c, s')"
  shows "registry_untouched s s'"
proof -
  from assms obtain r s1 where r: "retranslatorFor p s = Some (r, s1)"
    and s': "s' = emit (Invoke f)
               (update_object r (\<lambda>ob. ob\<lparr>derived := append_func f (derived ob)\<rparr>) s1)"
    by (auto simp: attachRetranslator_def invoke_def split: option.splits)
  show ?thesis
    unfolding s'
    by (intro untouched_emit untouched_update_object untouched_retranslatorFor [OF r]) simp
qed

lemma untouched_invokes:
  "registry_untouched s s1 \<Longrightarrow> registry_untouched s (snd (invoke_each funcs s1))"
  by (induction funcs arbitrary: s1) (simp_all add: invoke_def untouched_emit)

lemma eventFilter_state:
  "eventFilter this obj e s = Some (b, s') \<Longrightarrow>
   \<exists>funcs. s' = s \<or> s' = snd (invoke_each funcs s)
         \<or> s' = emit (Emit_languageChange this) (snd (invoke_each funcs s))"
  unfolding eventFilter_def
  by (auto split: option.splits QObject_class.splits if_splits prod.splits completion.splits)
     (metis snd_conv)+

lemma untouched_eventFilter:
  assumes "eventFilter this obj e s = Some (b, s')"
  shows "registry_untouched s s'"
proof -
  have a: "registry_untouched s (snd (invoke_each funcs s))" for funcs
    by (rule untouched_invokes [OF untouched_refl])
  have b: "registry_untouched s (emit (Emit_languageChange this) (snd (invoke_each funcs s)))"
    for funcs
    by (rule untouched_emit [OF a]) simp
  from eventFilter_state [OF assms] show ?thesis
    using a b untouched_refl by auto
qed

lemma run_inv_untouched:
  assumes inv: "run_inv base st0 s" and u: "registry_untouched s s'"
  shows "run_inv base st0 s'"
proof -
  from u obtain evs where
    evs: "trace s' = trace s @ evs" and neutral: "\<forall>e\<in>set evs. \<forall>st. replay e st = st"
    unfolding registry_untouched_def by blast
  have rr: "\<And>r. read_ref r s' = read_ref r s"
    using u by (case_tac r) (simp_all add: registry_untouched_def)
  have tr: "translators s' = translators s" "app_translators s' = app_translators s"
    using u by (simp_all add: registry_untouched_def)
  from inv have reg: "registry_inv base s"
    and cons: "fold replay (trace s) st0 = app_translators s"
    and hist: "\<forall>st\<in>set (stack_history st0 (trace s)). bounded base st"
    unfolding run_inv_def by blast+
  have reg': "registry_inv base s'"
    using reg unfolding registry_inv_def rr tr .
  have b: "bounded base (app_translators s)"
    using registry_inv_count [OF reg] by (simp add: bounded_def)
  have cons': "fold replay (trace s') st0 = app_translators s'"
    unfolding evs tr using cons fold_replay_neutral [OF neutral] by simp
  have "set (stack_history st0 (trace s')) = set (stack_history st0 (trace s)) \<union> {app_translators s}"
    unfolding evs stack_history_append cons using stack_history_neutral [OF neutral] by simp
  then have hist': "\<forall>st\<in>set (stack_history st0 (trace s')). bounded base st"
    using hist b by auto
  show ?thesis unfolding run_inv_def using reg' cons' hist' by blast
qed

lemma run_inv_perform:
  "run_inv base st0 s \<Longrightarrow> perform c s = Some s' \<Longrightarrow> run_inv base st0 s'"
proof (cases c)
  case (Call_installTranslator env loc pre parent_arg)
  assume "run_inv base st0 s" "perform c s = Some s'"
  then show ?thesis using Call_installTranslator run_inv_installTranslator by auto
next
  case Call_translatorLocaleName
  assume "run_inv base st0 s" "perform c s = Some s'"
  then show ?thesis using Call_translatorLocaleName by auto
next
  case (Call_retranslatorFor p)
  assume "run_inv base st0 s" "perform c s = Some s'"
  then show ?thesis using Call_retranslatorFor
    by (auto intro: run_inv_untouched untouched_retranslatorFor)
next
  case (Call_attachRetranslator p f)
  assume "run_inv base st0 s" "perform c s = Some s'"
  then show ?thesis using Call_attachRetranslator
    by (auto intro: run_inv_untouched untouched_attachRetranslator)
next
  case (Call_eventFilter self obj e)
  assume "run_inv base st0 s" "perform c s = Some s'"
  then show ?thesis using Call_eventFilter
    by (auto intro: run_inv_untouched untouched_eventFilter)
qed

lemma run_inv_run:
  "run_inv base st0 s \<Longrightarrow> run cs s = Some s' \<Longrightarrow> run_inv base st0 s'"
proof (induction cs arbitrary: s)
  case Nil
  then show ?case by simp
next
  case (Cons c cs)
  then show ?case by (auto split: option.splits dest: run_inv_perform)
qed

lemma run_name_unchanged:
  "run cs s = Some s' \<Longrightarrow> list_all (\<lambda>c. \<not> is_installTranslator c) cs \<Longrightarrow>
   s_translatorLocaleName s' = s_translatorLocaleName s"
proof (induction cs arbitrary: s)
  case Nil
  then show ?case by simp
next
  case (Cons c cs)
  from Cons.prems obtain s1 where p: "perform c s = Some s1" and r: "run cs s1 = Some s'"
    by (auto split: option.splits)
  have "registry_untouched s s1"
    using p Cons.prems(2)
    by (cases c)
       (auto intro: untouched_refl untouched_retranslatorFor untouched_attachRetranslator
                    untouched_eventFilter)
  then have "s_translatorLocaleName s1 = s_translatorLocaleName s"
    by (simp add: registry_untouched_def)
  then show ?case using Cons.IH [OF r] Cons.prems(2) by simp
qed

lemma run_installTranslator_total:
  "list_all is_installTranslator cs \<Longrightarrow> \<exists>s'. run cs s = Some s'"
proof (induction cs arbitrary: s)
  case Nil
  show ?case by simp
next
  case (Cons c cs)
  then show ?case by (cases c) simp_all
qed

lemma count_list_filter:
  "count_list (filter P xs) x = (if P x then count_list xs x else 0)"
  by (induction xs) auto

lemma count_list_distinct: "distinct xs \<Longrightarrow> x \<in> set xs \<Longrightarrow> count_list xs x = 1"
  by (induction xs) (auto simp: count_list_0_iff)

subsection \<open>At most three installed translators\<close>

text \<open>
  Claim C4. Take any run of calls (any sequence of \<open>installTranslator\<close> calls, each of
  which returns, also interleaved with the other entry points) from a start in which
  other code has installed the translators \<open>host_installed\<close>, all of them objects of
  the store \<open>host_translators\<close>. At every moment of the run (before the first event of the trace
  and after each event) the translator list of the application holds at most three
  translators of this file, those at addresses from \<open>length host_translators\<close> on. The
  list the trace ends in is the list of the application. In the state reached, a static
  pointer that is not null points to a translator of this file that is in the list
  exactly once, no two static pointers are equal, and every translator of this file in
  the list is the target of a static pointer. In \<open>loadSingletonTranslator\<close>, after the
  load attempts the previous translator of the slot (when there is one) is removed from
  the list and deleted, and only then is the new one installed.
\<close>

theorem at_most_three_installed:
  assumes host: "\<forall>t\<in>set host_installed. t < length host_translators"
      and reach: "run cs (initial_state host_translators host_installed host_objects) = Some s"
  shows "(\<forall>st\<in>set (stack_history host_installed (trace s)).
            length (filter (\<lambda>t. length host_translators \<le> t) st) \<le> 3)
       \<and> last (stack_history host_installed (trace s)) = app_translators s
       \<and> (\<forall>r t. read_ref r s = Some t \<longrightarrow>
             count_list (app_translators s) t = 1 \<and> length host_translators \<le> t
           \<and> (\<forall>r'. read_ref r' s = Some t \<longrightarrow> r' = r))
       \<and> (\<forall>t\<in>set (app_translators s). length host_translators \<le> t \<longrightarrow>
             (\<exists>r. read_ref r s = Some t))
       \<and> trace (loadSingletonTranslator env loader ref s) =
           trace (snd (tryLoad env loader (length (translators s)) (snd (new_QTranslator s))))
           @ (case read_ref ref s of None \<Rightarrow> []
              | Some old \<Rightarrow> [RemoveTranslator old, DeleteTranslator old])
           @ [InstallTranslator (length (translators s))]"
proof -
  let ?base = "length host_translators"
  have inv: "run_inv ?base host_installed s"
    using run_inv_run [OF run_inv_initial [OF host] reach] .
  then have reg: "registry_inv ?base s"
    and cons: "fold replay (trace s) host_installed = app_translators s"
    and hist: "\<forall>st\<in>set (stack_history host_installed (trace s)). bounded ?base st"
    unfolding run_inv_def by blast+
  from reg have
    i1: "\<And>r t. read_ref r s = Some t \<Longrightarrow> ?base \<le> t" and
    i2: "\<And>r r' t. read_ref r s = Some t \<Longrightarrow> read_ref r' s = Some t \<Longrightarrow> r = r'" and
    i3: "\<And>t. ?base \<le> t \<Longrightarrow> (t \<in> set (app_translators s)) = (\<exists>r. read_ref r s = Some t)" and
    i4: "distinct (filter (\<lambda>t. ?base \<le> t) (app_translators s))"
    unfolding registry_inv_def by blast+
  have c1: "\<forall>st\<in>set (stack_history host_installed (trace s)).
            length (filter (\<lambda>t. ?base \<le> t) st) \<le> 3"
    using hist by (simp add: bounded_def)
  have c2: "last (stack_history host_installed (trace s)) = app_translators s"
    using cons by (simp add: last_stack_history)
  have c3: "\<forall>r t. read_ref r s = Some t \<longrightarrow>
             count_list (app_translators s) t = 1 \<and> ?base \<le> t
           \<and> (\<forall>r'. read_ref r' s = Some t \<longrightarrow> r' = r)"
  proof (intro allI impI)
    fix r t assume rt: "read_ref r s = Some t"
    have b: "?base \<le> t" using i1 [OF rt] .
    have "t \<in> set (filter (\<lambda>t. ?base \<le> t) (app_translators s))"
      using i3 [OF b] rt b by auto
    then have "count_list (filter (\<lambda>t. ?base \<le> t) (app_translators s)) t = 1"
      using i4 by (rule count_list_distinct [rotated])
    then have "count_list (app_translators s) t = 1"
      using b by (simp add: count_list_filter)
    then show "count_list (app_translators s) t = 1 \<and> ?base \<le> t
           \<and> (\<forall>r'. read_ref r' s = Some t \<longrightarrow> r' = r)"
      using b i2 [OF _ rt] by blast
  qed
  have c4: "\<forall>t\<in>set (app_translators s). ?base \<le> t \<longrightarrow> (\<exists>r. read_ref r s = Some t)"
    using i3 by blast
  have c5: "trace (loadSingletonTranslator env loader ref s) =
           trace (snd (tryLoad env loader (length (translators s)) (snd (new_QTranslator s))))
           @ (case read_ref ref s of None \<Rightarrow> []
              | Some old \<Rightarrow> [RemoveTranslator old, DeleteTranslator old])
           @ [InstallTranslator (length (translators s))]"
    using loadSingletonTranslator_result [of s env loader ref]
    by (auto simp: swap_events_def)
  show ?thesis using c1 c2 c3 c4 c5 by blast
qed

theorem at_most_three_installed_witness:
  "run [Call_installTranslator example_env example_locale ''/branding/calamares-x_'' None,
        Call_installTranslator example_env example_locale [] None] example_start
     = Some example_twice
   \<and> list_all (\<lambda>st. length (filter (\<lambda>t. 0 \<le> t) st) \<le> 3)
        (stack_history [] (trace example_twice))
   \<and> last (stack_history [] (trace example_twice)) = app_translators example_twice"
proof -
  have r: "run [Call_installTranslator example_env example_locale ''/branding/calamares-x_'' None,
        Call_installTranslator example_env example_locale [] None]
       (initial_state [] [] example_objects) = Some example_twice"
    by (simp add: example_twice_def example_once_def example_start_def)
  have h: "\<forall>t\<in>set ([]::addr list). t < length ([]::QTranslator option list)" by simp
  show ?thesis
    using at_most_three_installed [OF h r] r
    by (simp add: list_all_iff example_start_def)
qed

subsection \<open>The empty branding prefix\<close>

text \<open>
  Claim C7. With the empty branding prefix, \<open>tryLoad\<close> of the \<open>BrandingLoader\<close> returns
  false and leaves the state as it is: the trace gets no load attempt and no directory
  test. In any state \<open>s\<close> that a run reaches, \<open>installTranslator\<close> with the empty prefix
  still allocates a translator at the fresh address \<open>length (translators s)\<close>, makes
  \<open>s_brandingTranslator\<close> point to it, leaves it empty and installs it in the list of
  the application; the translator that \<open>s_brandingTranslator\<close> pointed to before is out
  of the list and deleted. The events of the branding step are exactly the allocation,
  the removal and deletion of the old translator, and the installation of the new one.
\<close>

theorem empty_branding_prefix:
  assumes host: "\<forall>t\<in>set host_installed. t < length host_translators"
      and reach: "run cs (initial_state host_translators host_installed host_objects) = Some s"
  shows "tryLoad env (new_BrandingLoader loc []) t s = (False, s)
       \<and> deref (translators s) (length (translators s)) = None
       \<and> s_brandingTranslator s \<noteq> Some (length (translators s))
       \<and> s_brandingTranslator (installTranslator env loc [] parent_arg s)
           = Some (length (translators s))
       \<and> deref (translators (installTranslator env loc [] parent_arg s)) (length (translators s))
           = Some \<lparr>catalog = None\<rparr>
       \<and> length (translators s) \<in> set (app_translators (installTranslator env loc [] parent_arg s))
       \<and> (\<forall>old. s_brandingTranslator s = Some old \<longrightarrow>
             old \<notin> set (app_translators (installTranslator env loc [] parent_arg s))
           \<and> deref (translators (installTranslator env loc [] parent_arg s)) old = None)
       \<and> trace (loadSingletonTranslator env (new_BrandingLoader loc [])
                  Ref_s_brandingTranslator s)
           = trace s @ NewTranslator (length (translators s))
               # (case s_brandingTranslator s of None \<Rightarrow> []
                  | Some old \<Rightarrow> [RemoveTranslator old, DeleteTranslator old])
               @ [InstallTranslator (length (translators s))]"
proof -
  let ?b = "length (translators s)"
  let ?sa = "loadSingletonTranslator env (new_BrandingLoader loc []) Ref_s_brandingTranslator s"
  let ?sb = "loadSingletonTranslator env (new_TZLoader loc) Ref_s_tztranslator ?sa"
  let ?sc = "loadSingletonTranslator env (new_CalamaresLoader loc) Ref_s_translator ?sb"
  let ?s' = "installTranslator env loc [] parent_arg s"
  have inv: "registry_inv (length host_translators) s"
    using run_inv_run [OF run_inv_initial [OF host] reach] by (simp add: run_inv_def)
  then have
    lt: "\<And>r p. read_ref r s = Some p \<Longrightarrow> p < ?b" and
    noalias: "\<And>r r' p. read_ref r s = Some p \<Longrightarrow> read_ref r' s = Some p \<Longrightarrow> r = r'"
    unfolding registry_inv_def by blast+
  have s': "?s' = ?sc\<lparr>s_translatorLocaleName := m_localeName (new_CalamaresLoader loc)\<rparr>"
    by (simp add: installTranslator_def Let_def)
  have la: "length (translators ?sa) = Suc ?b" by (rule lST_length)
  have lb: "length (translators ?sb) = Suc (Suc ?b)" by (simp add: lST_length)
  have rr_a: "\<And>r. read_ref r ?sa = (if r = Ref_s_brandingTranslator then Some ?b else read_ref r s)"
    by (rule lST_read_ref)
  have rr_b: "\<And>r. read_ref r ?sb =
      (if r = Ref_s_tztranslator then Some (Suc ?b) else read_ref r ?sa)"
    using lST_read_ref [of _ env "new_TZLoader loc" Ref_s_tztranslator ?sa] la by simp
  have tz_a: "read_ref Ref_s_tztranslator ?sa = read_ref Ref_s_tztranslator s"
    using rr_a [of Ref_s_tztranslator] by simp
  have app_b: "read_ref Ref_s_translator ?sb = read_ref Ref_s_translator s"
    using rr_b [of Ref_s_translator] rr_a [of Ref_s_translator] by simp
  have c1: "tryLoad env (new_BrandingLoader loc []) t s = (False, s)"
    by (rule tryLoad_empty_prefix)
  have c2: "deref (translators s) ?b = None" by (simp add: deref_def)
  have c3: "s_brandingTranslator s \<noteq> Some ?b"
    using lt [of Ref_s_brandingTranslator ?b] by auto
  have c4: "s_brandingTranslator ?s' = Some ?b"
    using lST_read_ref [of Ref_s_brandingTranslator env "new_CalamaresLoader loc" Ref_s_translator ?sb]
          rr_b [of Ref_s_brandingTranslator] rr_a [of Ref_s_brandingTranslator]
    by (simp add: s')
  have cell_a: "deref (translators ?sa) ?b = Some \<lparr>catalog = None\<rparr>"
    using lST_empty_prefix_cell [of Ref_s_brandingTranslator s env loc] c3 by simp
  have cell_b: "deref (translators ?sb) ?b = Some \<lparr>catalog = None\<rparr>"
    using lST_other_cell [of ?b ?sa Ref_s_tztranslator env "new_TZLoader loc"] la tz_a cell_a
          lt [of Ref_s_tztranslator ?b]
    by auto
  have cell_c: "deref (translators ?sc) ?b = Some \<lparr>catalog = None\<rparr>"
    using lST_other_cell [of ?b ?sb Ref_s_translator env "new_CalamaresLoader loc"] lb app_b cell_b
          lt [of Ref_s_translator ?b]
    by auto
  have c5: "deref (translators ?s') ?b = Some \<lparr>catalog = None\<rparr>"
    using cell_c by (simp add: s')
  have mem_a: "?b \<in> set (app_translators ?sa)" by (simp add: lST_mem)
  have mem_b: "?b \<in> set (app_translators ?sb)"
    using mem_a tz_a lt [of Ref_s_tztranslator ?b] by (auto simp: lST_mem [of _ _ _ _ ?sa])
  have mem_c: "?b \<in> set (app_translators ?sc)"
    using mem_b app_b lt [of Ref_s_translator ?b] by (auto simp: lST_mem [of _ _ _ _ ?sb])
  have c6: "?b \<in> set (app_translators ?s')" using mem_c by (simp add: s')
  have c7: "\<forall>old. s_brandingTranslator s = Some old \<longrightarrow>
             old \<notin> set (app_translators ?s') \<and> deref (translators ?s') old = None"
  proof (intro allI impI)
    fix old assume old: "s_brandingTranslator s = Some old"
    then have ro: "read_ref Ref_s_brandingTranslator s = Some old" by simp
    have old_lt: "old < ?b" using lt [OF ro] .
    have tz_ne: "read_ref Ref_s_tztranslator s \<noteq> Some old"
      using noalias [OF ro, of Ref_s_tztranslator] by auto
    have app_ne: "read_ref Ref_s_translator s \<noteq> Some old"
      using noalias [OF ro, of Ref_s_translator] by auto
    have da: "deref (translators ?sa) old = None"
      using lST_deleted [OF ro old_lt] .
    have db: "deref (translators ?sb) old = None"
      using lST_other_cell [of old ?sa Ref_s_tztranslator env "new_TZLoader loc"]
            la old_lt tz_a tz_ne da by simp
    have dc: "deref (translators ?sc) old = None"
      using lST_other_cell [of old ?sb Ref_s_translator env "new_CalamaresLoader loc"]
            lb old_lt app_b app_ne db by simp
    have ma: "old \<notin> set (app_translators ?sa)"
      using old_lt ro by (simp add: lST_mem)
    have mb: "old \<notin> set (app_translators ?sb)"
      using ma old_lt la by (simp add: lST_mem [of _ _ _ _ ?sa])
    have mc: "old \<notin> set (app_translators ?sc)"
      using mb old_lt lb by (simp add: lST_mem [of _ _ _ _ ?sb])
    show "old \<notin> set (app_translators ?s') \<and> deref (translators ?s') old = None"
      using mc dc by (simp add: s')
  qed
  have c8: "trace ?sa = trace s @ NewTranslator ?b
               # (case s_brandingTranslator s of None \<Rightarrow> []
                  | Some old \<Rightarrow> [RemoveTranslator old, DeleteTranslator old])
               @ [InstallTranslator ?b]"
    by (simp add: lST_trace_empty_prefix swap_events_def)
  show ?thesis using c1 c2 c3 c4 c5 c6 c7 c8 by blast
qed

theorem empty_branding_prefix_witness:
  "tryLoad example_env (new_BrandingLoader example_locale []) 3 example_once
     = (False, example_once)
   \<and> s_brandingTranslator example_once = Some 0
   \<and> s_brandingTranslator example_twice = Some 3
   \<and> deref (translators example_twice) 3 = Some \<lparr>catalog = None\<rparr>
   \<and> 3 \<in> set (app_translators example_twice)
   \<and> 0 \<notin> set (app_translators example_twice)
   \<and> deref (translators example_twice) 0 = None"
proof -
  have h: "\<forall>t\<in>set ([]::addr list). t < length ([]::QTranslator option list)" by simp
  have r: "run [Call_installTranslator example_env example_locale ''/branding/calamares-x_'' None]
             (initial_state [] [] example_objects) = Some example_once"
    by (simp add: example_once_def example_start_def)
  have len: "length (translators example_once) = 3"
    by (simp add: example_once_def installTranslator_length example_start_def initial_state_def)
  have old: "s_brandingTranslator example_once = Some 0"
    by (simp add: example_once_def installTranslator_refs example_start_def initial_state_def)
  show ?thesis
    using empty_branding_prefix [OF h r, of example_env example_locale 3 None] old
    by (simp add: len example_twice_def)
qed

subsection \<open>The fallback of the CalamaresLoader\<close>

lemma trace_load:
  "trace (snd (QTranslator_load env t f s)) = trace s @ [Load t f (load_file env f)]"
  "fst (QTranslator_load env t f s) = load_file env f"
  by (simp_all add: QTranslator_load_def Let_def emit_def set_catalog_def split: option.splits)

text \<open>
  Claim C6. For every locale, \<open>tryLoad\<close> of the \<open>CalamaresLoader\<close> first attempts the
  resource \<^verbatim>\<open>:/lang/calamares_\<close> followed by the munged locale name. When that load
  succeeds the result is true and the only events are that attempt and the debug
  message: the fallback is not attempted. When it fails, the events are the failed
  attempt, the debug message and exactly one attempt at \<^verbatim>\<open>:/lang/calamares_en\<close>, and the
  result is the outcome of that attempt.
\<close>

theorem CalamaresLoader_fallback:
  "(load_file env ('':/lang/calamares_'' @ mungeLocaleName loc) \<longrightarrow>
      fst (tryLoad env (new_CalamaresLoader loc) translator s) = True
    \<and> trace (snd (tryLoad env (new_CalamaresLoader loc) translator s)) =
        trace s @ [Load translator ('':/lang/calamares_'' @ mungeLocaleName loc) True,
                   CDebug ''Calamares using locale:'' (mungeLocaleName loc)])
   \<and> (\<not> load_file env ('':/lang/calamares_'' @ mungeLocaleName loc) \<longrightarrow>
      fst (tryLoad env (new_CalamaresLoader loc) translator s) =
        load_file env '':/lang/calamares_en''
    \<and> trace (snd (tryLoad env (new_CalamaresLoader loc) translator s)) =
        trace s @ [Load translator ('':/lang/calamares_'' @ mungeLocaleName loc) False,
                   CDebug ''Calamares using default, system locale not found:''
                     (mungeLocaleName loc),
                   Load translator '':/lang/calamares_en''
                     (load_file env '':/lang/calamares_en'')])"
proof -
  let ?p = "'':/lang/calamares_'' @ mungeLocaleName loc"
  obtain b s1 where l1: "QTranslator_load env translator ?p s = (b, s1)"
    by (cases "QTranslator_load env translator ?p s") auto
  have b: "b = load_file env ?p" and t1: "trace s1 = trace s @ [Load translator ?p b]"
    using trace_load [of env translator ?p s] l1 by simp_all
  show ?thesis
  proof (cases b)
    case True
    then show ?thesis
      using l1 b t1
      by (simp add: new_CalamaresLoader_def CalamaresLoader_tryLoad_def cDebug_def emit_def)
  next
    case False
    then show ?thesis
      using l1 b t1
      by (simp add: new_CalamaresLoader_def CalamaresLoader_tryLoad_def trace_load
            cDebug_def emit_def)
  qed
qed

theorem CalamaresLoader_fallback_witness:
  "fst (tryLoad example_env (new_CalamaresLoader example_locale) 0
          (snd (new_QTranslator (initial_state [] [] [])))) = True
   \<and> trace (snd (tryLoad example_env (new_CalamaresLoader example_locale) 0
          (snd (new_QTranslator (initial_state [] [] []))))) =
       [NewTranslator 0,
        Load 0 '':/lang/calamares_zz_ZZ'' False,
        CDebug ''Calamares using default, system locale not found:'' ''zz_ZZ'',
        Load 0 '':/lang/calamares_en'' True]
   \<and> fst (tryLoad example_env (new_CalamaresLoader english_locale) 0
          (snd (new_QTranslator (initial_state [] [] [])))) = True
   \<and> trace (snd (tryLoad example_env (new_CalamaresLoader english_locale) 0
          (snd (new_QTranslator (initial_state [] [] []))))) =
       [NewTranslator 0,
        Load 0 '':/lang/calamares_en'' True,
        CDebug ''Calamares using locale:'' ''en'']"
  using CalamaresLoader_fallback [of example_env example_locale 0
          "snd (new_QTranslator (initial_state [] [] []))"]
        CalamaresLoader_fallback [of example_env english_locale 0
          "snd (new_QTranslator (initial_state [] [] []))"]
  by (simp add: example_env_def example_locale_def english_locale_def mungeLocaleName_def
        QString_replace_def new_QTranslator_def initial_state_def emit_def Let_def)

subsection \<open>The recorded name before the first installTranslator\<close>

text \<open>
  Claim C10. In the state in which the program starts \<open>translatorLocaleName\<close> returns the
  empty string, and so it does after any run of calls none of which is
  \<open>installTranslator\<close>.
\<close>

theorem name_empty_before_first_install:
  "translatorLocaleName (initial_state host_translators host_installed host_objects) = []
   \<and> (\<forall>cs s. run cs (initial_state host_translators host_installed host_objects) = Some s
            \<and> list_all (\<lambda>c. \<not> is_installTranslator c) cs
          \<longrightarrow> translatorLocaleName s = [])"
  using run_name_unchanged [of _ "initial_state host_translators host_installed host_objects"]
  by (auto simp: translatorLocaleName_def initial_state_def)

theorem name_empty_before_first_install_witness:
  "translatorLocaleName example_start = []
   \<and> run [Call_attachRetranslator 0 (Returning 7),
           Call_eventFilter 1 0 \<lparr>event_type = LanguageChange\<rparr>,
           Call_translatorLocaleName] example_start \<noteq> None
   \<and> translatorLocaleName
        (the (run [Call_attachRetranslator 0 (Returning 7),
                   Call_eventFilter 1 0 \<lparr>event_type = LanguageChange\<rparr>,
                   Call_translatorLocaleName] example_start)) = []"
proof -
  let ?cs = "[Call_attachRetranslator 0 (Returning 7),
              Call_eventFilter 1 0 \<lparr>event_type = LanguageChange\<rparr>,
              Call_translatorLocaleName]"
  have ne: "run ?cs example_start \<noteq> None"
    by (simp add: example_start_def example_objects_def initial_state_def
        attachRetranslator_def retranslatorFor_def new_Retranslator_def update_object_def
        deref_def eventFilter_def invoke_def emit_def Let_def QObject_eventFilter_def)
  then have r: "run ?cs (initial_state [] [] example_objects) = Some (the (run ?cs example_start))"
    by (auto simp: example_start_def)
  have la: "list_all (\<lambda>c. \<not> is_installTranslator c) ?cs" by simp
  have n0: "translatorLocaleName example_start = []"
    unfolding example_start_def
    by (rule conjunct1 [OF name_empty_before_first_install])
  have n1: "translatorLocaleName (the (run ?cs example_start)) = []"
    by (rule mp [OF spec [OF spec [OF conjunct2
          [OF name_empty_before_first_install [of "[]" "[]" example_objects]]]]])
       (rule conjI [OF r la])
  show ?thesis using n0 n1 ne by blast
qed

subsection \<open>The object store under the Retranslator operations\<close>

lemma deref_Some_less: "deref h p = Some x \<Longrightarrow> p < length h"
  by (auto simp: deref_def split: if_splits)

lemma deref_length: "deref h (length h) = None"
  by (simp add: deref_def)

lemma wf_objects_iff:
  "wf_objects objs \<longleftrightarrow>
     (\<forall>p po. deref objs p = Some po \<longrightarrow>
        (\<forall>c\<in>set (children po). \<exists>co. deref objs c = Some co \<and> parent co = Some p))"
proof
  assume wf: "wf_objects objs"
  show "\<forall>p po. deref objs p = Some po \<longrightarrow>
        (\<forall>c\<in>set (children po). \<exists>co. deref objs c = Some co \<and> parent co = Some p)"
  proof (intro allI impI ballI)
    fix p po c assume p: "deref objs p = Some po" and c: "c \<in> set (children po)"
    have "p < length objs" using p by (rule deref_Some_less)
    then have "p \<in> set [0..<length objs]" by simp
    with wf have "case deref objs p of
              None \<Rightarrow> True
            | Some po \<Rightarrow>
                list_all
                  (\<lambda>c. case deref objs c of None \<Rightarrow> False | Some co \<Rightarrow> parent co = Some p)
                  (children po)"
      unfolding wf_objects_def list_all_iff by (rule bspec)
    then have "list_all
                  (\<lambda>c. case deref objs c of None \<Rightarrow> False | Some co \<Rightarrow> parent co = Some p)
                  (children po)"
      using p by simp
    then show "\<exists>co. deref objs c = Some co \<and> parent co = Some p"
      using c by (auto simp: list_all_iff split: option.splits)
  qed
next
  assume "\<forall>p po. deref objs p = Some po \<longrightarrow>
        (\<forall>c\<in>set (children po). \<exists>co. deref objs c = Some co \<and> parent co = Some p)"
  then show "wf_objects objs"
    by (fastforce simp: wf_objects_def list_all_iff split: option.splits)
qed

lemma scan_children_live:
  "\<forall>c\<in>set cs. deref objs c \<noteq> None \<Longrightarrow>
   scan_children objs cs =
     Some (case filter (is_Retranslator objs) cs of [] \<Rightarrow> None | r # rs \<Rightarrow> Some r)"
  by (induction cs)
     (auto simp: is_Retranslator_def split: option.splits QObject_class.splits)

lemma new_Retranslator_result:
  assumes p: "deref (objects s) p = Some po"
  shows "new_Retranslator p s =
     Some (length (objects s),
           s\<lparr>objects := (objects s @
                 [Some \<lparr>parent = Some p, children = [], eventFilters = [],
                        derived = Retranslator []\<rparr>])
                 [p := Some (po\<lparr>children := children po @ [length (objects s)],
                               eventFilters := length (objects s)
                                 # removeAll (length (objects s)) (eventFilters po)\<rparr>)],
              trace := trace s @ [NewRetranslator (length (objects s)) p]\<rparr>)"
proof -
  have lt: "p < length (objects s)" using p by (rule deref_Some_less)
  have nth: "objects s ! p = Some po" using p lt by (simp add: deref_def)
  show ?thesis
    using lt nth p
    by (simp add: new_Retranslator_def Let_def update_object_def deref_def nth_append emit_def)
qed

lemma deref_with_new:
  assumes "deref objs p = Some po"
  shows "deref (with_new_Retranslator objs p po) q =
     (if q = p then Some (po\<lparr>children := children po @ [length objs],
                     eventFilters := length objs # removeAll (length objs) (eventFilters po)\<rparr>)
      else if q = length objs
           then Some \<lparr>parent = Some p, children = [], eventFilters = [],
                      derived = Retranslator []\<rparr>
           else deref objs q)"
  using deref_Some_less [OF assms]
  by (auto simp: with_new_Retranslator_def deref_def nth_append nth_list_update)

lemma is_Retranslator_with_new:
  assumes "deref objs p = Some po"
  shows "is_Retranslator (with_new_Retranslator objs p po) c =
         (c = length objs \<or> is_Retranslator objs c)"
  using assms deref_Some_less [OF assms]
  by (auto simp: is_Retranslator_def deref_with_new [OF assms])

lemma callbacks_of_with_new:
  assumes "deref objs p = Some po"
  shows "callbacks_of (with_new_Retranslator objs p po) c = callbacks_of objs c"
  using assms
  by (simp add: callbacks_of_def deref_with_new [OF assms] deref_length)

lemma wf_with_new:
  assumes wf: "wf_objects objs" and p: "deref objs p = Some po"
  shows "wf_objects (with_new_Retranslator objs p po)"
  unfolding wf_objects_iff
proof (intro allI impI ballI)
  fix q qo c
  assume q: "deref (with_new_Retranslator objs p po) q = Some qo" and c: "c \<in> set (children qo)"
  have plt: "p < length objs" using p by (rule deref_Some_less)
  have old: "\<And>q qo c. deref objs q = Some qo \<Longrightarrow> c \<in> set (children qo) \<Longrightarrow>
               \<exists>co. deref objs c = Some co \<and> parent co = Some q"
    using wf unfolding wf_objects_iff by blast
  have keep: "\<And>c co q. deref objs c = Some co \<Longrightarrow> parent co = Some q \<Longrightarrow>
               \<exists>co'. deref (with_new_Retranslator objs p po) c = Some co' \<and> parent co' = Some q"
    using p by (auto simp: deref_with_new [OF p] dest: deref_Some_less)
  show "\<exists>co. deref (with_new_Retranslator objs p po) c = Some co \<and> parent co = Some q"
  proof (cases "q = p")
    case True
    then have "c \<in> set (children po) \<or> c = length objs"
      using q c by (auto simp: deref_with_new [OF p])
    then show ?thesis
    proof
      assume "c \<in> set (children po)"
      then show ?thesis using old [OF p] keep True by blast
    next
      assume "c = length objs"
      then show ?thesis using plt True by (simp add: deref_with_new [OF p])
    qed
  next
    case False
    then have "deref objs q = Some qo"
      using q c by (auto simp: deref_with_new [OF p] split: if_splits)
    then show ?thesis using old c keep by blast
  qed
qed

lemma retranslators_of_with_new:
  assumes wf: "wf_objects objs" and p: "deref objs p = Some po"
  shows "retranslators_of (with_new_Retranslator objs p po) q =
         (if q = p then retranslators_of objs p @ [length objs] else retranslators_of objs q)"
proof -
  have live: "\<And>q qo c. deref objs q = Some qo \<Longrightarrow> c \<in> set (children qo) \<Longrightarrow> c \<noteq> length objs"
    using wf unfolding wf_objects_iff by (fastforce dest: deref_Some_less)
  have same: "\<And>q qo. deref objs q = Some qo \<Longrightarrow>
     filter (is_Retranslator (with_new_Retranslator objs p po)) (children qo) =
     filter (is_Retranslator objs) (children qo)"
    by (rule filter_cong) (auto simp: is_Retranslator_with_new [OF p] dest: live)
  show ?thesis
  proof (cases "q = p")
    case True
    then show ?thesis
      using p same [OF p]
      by (simp add: retranslators_of_def deref_with_new [OF p] is_Retranslator_with_new [OF p])
  next
    case False
    show ?thesis
    proof (cases "deref objs q")
      case None
      then show ?thesis
        using False by (simp add: retranslators_of_def deref_with_new [OF p])
    next
      case (Some qo)
      then have "q \<noteq> length objs" by (auto dest: deref_Some_less)
      then show ?thesis
        using False Some same [OF Some] by (simp add: retranslators_of_def deref_with_new [OF p])
    qed
  qed
qed

lemma retranslatorFor_result:
  assumes wf: "wf_objects (objects s)" and p: "deref (objects s) p = Some po"
  shows "retranslatorFor p s =
     (case retranslators_of (objects s) p of
        r # rs \<Rightarrow> Some (r, s)
      | [] \<Rightarrow> Some (length (objects s),
                   s\<lparr>objects := with_new_Retranslator (objects s) p po,
                      trace := trace s @ [NewRetranslator (length (objects s)) p]\<rparr>))"
proof -
  have "\<forall>c\<in>set (children po). deref (objects s) c \<noteq> None"
    using wf p unfolding wf_objects_iff by fastforce
  then have "scan_children (objects s) (children po) =
     Some (case filter (is_Retranslator (objects s)) (children po) of
             [] \<Rightarrow> None | r # rs \<Rightarrow> Some r)"
    by (rule scan_children_live)
  then show ?thesis
    using p new_Retranslator_result [OF p]
    by (simp add: retranslatorFor_def retranslators_of_def with_new_Retranslator_def
          split: list.splits)
qed

lemma objects_update_object:
  "objects (update_object r (\<lambda>ob. ob\<lparr>derived := append_func f (derived ob)\<rparr>) s) =
   with_callback (objects s) r f"
  by (simp add: update_object_def with_callback_def split: option.splits)

lemma deref_with_callback:
  "deref (with_callback objs r f) q =
     (if q = r then map_option (\<lambda>ob. ob\<lparr>derived := append_func f (derived ob)\<rparr>) (deref objs r)
      else deref objs q)"
  by (auto simp: with_callback_def deref_def split: option.splits)

lemma is_Retranslator_with_callback:
  "is_Retranslator (with_callback objs r f) c = is_Retranslator objs c"
proof (cases "deref objs r")
  case None
  then show ?thesis by (simp add: with_callback_def)
next
  case (Some ob)
  then show ?thesis
    by (cases "derived ob") (auto simp: is_Retranslator_def deref_with_callback)
qed

lemma retranslators_of_with_callback:
  "retranslators_of (with_callback objs r f) q = retranslators_of objs q"
proof -
  have eq: "is_Retranslator (with_callback objs r f) = is_Retranslator objs"
    by (rule ext) (rule is_Retranslator_with_callback)
  have ch: "map_option children (deref (with_callback objs r f) q) =
            map_option children (deref objs q)"
    by (cases "deref objs r") (auto simp: deref_with_callback)
  show ?thesis
    unfolding retranslators_of_def eq using ch by (auto split: option.splits)
qed

lemma wf_with_callback:
  "wf_objects objs \<Longrightarrow> wf_objects (with_callback objs r f)"
  unfolding wf_objects_iff deref_with_callback
  by (auto split: if_splits) fastforce+

lemma callbacks_of_with_callback:
  "callbacks_of (with_callback objs r f) q =
     (if q = r \<and> is_Retranslator objs r then callbacks_of objs r @ [f] else callbacks_of objs q)"
proof (cases "deref objs r")
  case None
  then show ?thesis by (simp add: with_callback_def is_Retranslator_def)
next
  case (Some ob)
  then show ?thesis
    by (cases "derived ob")
       (auto simp: callbacks_of_def is_Retranslator_def deref_with_callback)
qed

lemma update_object_callback:
  "update_object r (\<lambda>ob. ob\<lparr>derived := append_func f (derived ob)\<rparr>) s =
   s\<lparr>objects := with_callback (objects s) r f\<rparr>"
  by (simp add: update_object_def with_callback_def split: option.splits)

lemma attachRetranslator_result:
  assumes wf: "wf_objects (objects s)" and p: "deref (objects s) p = Some po"
  shows "attachRetranslator p f s =
     (case retranslators_of (objects s) p of
        r # rs \<Rightarrow>
          Some (if throws f then Thrown else Returned (),
                s\<lparr>objects := with_callback (objects s) r f, trace := trace s @ [Invoke f]\<rparr>)
      | [] \<Rightarrow>
          Some (if throws f then Thrown else Returned (),
                s\<lparr>objects := with_callback (with_new_Retranslator (objects s) p po)
                              (length (objects s)) f,
                   trace := trace s @ [NewRetranslator (length (objects s)) p, Invoke f]\<rparr>))"
  by (simp add: attachRetranslator_def retranslatorFor_result [OF wf p] update_object_callback
        invoke_def emit_def split: list.splits)

lemma invoke_each_returns:
  "\<forall>f\<in>set funcs. \<not> throws f \<Longrightarrow>
   invoke_each funcs s = (Returned (), s\<lparr>trace := trace s @ map Invoke funcs\<rparr>)"
  by (induction funcs arbitrary: s) (simp_all add: invoke_def emit_def)

lemma invoke_each_throws:
  "\<forall>f\<in>set pre. \<not> throws f \<Longrightarrow> throws g \<Longrightarrow>
   invoke_each (pre @ g # post) s = (Thrown, s\<lparr>trace := trace s @ map Invoke pre @ [Invoke g]\<rparr>)"
  by (induction pre arbitrary: s) (simp_all add: invoke_def emit_def)

lemma objects_invoke_each: "objects (snd (invoke_each funcs s)) = objects s"
  by (induction funcs arbitrary: s) (simp_all add: invoke_def emit_def)

lemma eventFilter_result:
  assumes "deref (objects s) r = Some ro" and "derived ro = Retranslator funcs"
  shows "\<not> (parent ro = Some obj \<and> event_type e = LanguageChange) \<Longrightarrow>
           eventFilter r obj e s = Some (Returned False, s)"
    and "parent ro = Some obj \<Longrightarrow> event_type e = LanguageChange \<Longrightarrow>
         \<forall>f\<in>set funcs. \<not> throws f \<Longrightarrow>
           eventFilter r obj e s =
             Some (Returned False,
                   s\<lparr>trace := trace s @ map Invoke funcs @ [Emit_languageChange r]\<rparr>)"
    and "parent ro = Some obj \<Longrightarrow> event_type e = LanguageChange \<Longrightarrow>
         funcs = pre @ g # post \<Longrightarrow> \<forall>f\<in>set pre. \<not> throws f \<Longrightarrow> throws g \<Longrightarrow>
           eventFilter r obj e s =
             Some (Thrown, s\<lparr>trace := trace s @ map Invoke pre @ [Invoke g]\<rparr>)"
  using assms
  by (auto simp: eventFilter_def invoke_each_returns invoke_each_throws emit_def
        QObject_eventFilter_def)

lemma objects_eventFilter:
  assumes "eventFilter r obj e s = Some (b, s')"
  shows "objects s' = objects s"
  using eventFilter_state [OF assms] by (auto simp: objects_invoke_each emit_def)

lemma retranslatorFor_live:
  "retranslatorFor p s = Some x \<Longrightarrow> \<exists>po. deref (objects s) p = Some po"
  by (auto simp: retranslatorFor_def split: option.splits)

lemma attachRetranslator_live:
  "attachRetranslator p f s = Some x \<Longrightarrow> \<exists>po. deref (objects s) p = Some po"
  by (auto simp: attachRetranslator_def dest: retranslatorFor_live split: option.splits)

lemma first_retranslator:
  assumes wf: "wf_objects objs" and a: "retranslators_of objs p = r # rs"
  shows "\<exists>ro funcs. deref objs r = Some ro \<and> parent ro = Some p
           \<and> derived ro = Retranslator funcs \<and> callbacks_of objs r = funcs"
proof -
  obtain po where po: "deref objs p = Some po"
    using a by (auto simp: retranslators_of_def split: option.splits)
  have "r \<in> set (filter (is_Retranslator objs) (children po))"
    using a po by (simp add: retranslators_of_def)
  then have c: "r \<in> set (children po)" and i: "is_Retranslator objs r" by auto
  obtain ro where ro: "deref objs r = Some ro" "parent ro = Some p"
    using wf po c unfolding wf_objects_iff by blast
  obtain funcs where "derived ro = Retranslator funcs"
    using i ro by (cases "derived ro") (auto simp: is_Retranslator_def)
  then show ?thesis using ro by (auto simp: callbacks_of_def)
qed

text \<open>One call: the store stays well formed, no parent gets a second Retranslator, and
  the callback list of the first Retranslator of \<open>p\<close> grows by what the call attaches
  to \<open>p\<close>.\<close>

lemma perform_objects:
  assumes wf: "wf_objects (objects s)" and c: "perform c s = Some s'"
  shows "wf_objects (objects s')"
    and "\<And>q. retranslators_of (objects s') q = retranslators_of (objects s) q
             \<or> (retranslators_of (objects s) q = []
                \<and> retranslators_of (objects s') q = [length (objects s)])"
    and "\<And>p r rs. retranslators_of (objects s) p = r # rs \<Longrightarrow>
           callbacks_of (objects s') r = callbacks_of (objects s) r @ attached_to p c"
proof -
  have first_is: "\<And>p r rs. retranslators_of (objects s) p = r # rs \<Longrightarrow>
      is_Retranslator (objects s) r \<and> (\<exists>ro. deref (objects s) r = Some ro \<and> parent ro = Some p)"
  proof -
    fix p r rs assume a: "retranslators_of (objects s) p = r # rs"
    then obtain po where po: "deref (objects s) p = Some po"
      by (auto simp: retranslators_of_def split: option.splits)
    have "r \<in> set (filter (is_Retranslator (objects s)) (children po))"
      using a po by (simp add: retranslators_of_def)
    then show "is_Retranslator (objects s) r
        \<and> (\<exists>ro. deref (objects s) r = Some ro \<and> parent ro = Some p)"
      using wf po unfolding wf_objects_iff by auto
  qed
  have distinct_first: "\<And>p q r rs r' rs'. retranslators_of (objects s) p = r # rs \<Longrightarrow>
      retranslators_of (objects s) q = r' # rs' \<Longrightarrow> q \<noteq> p \<Longrightarrow> r' \<noteq> r"
  proof
    fix p q r rs r' rs'
    assume a: "retranslators_of (objects s) p = r # rs"
       and b: "retranslators_of (objects s) q = r' # rs'" and ne: "q \<noteq> p" and eq: "r' = r"
    from first_is [OF a] obtain ro where "deref (objects s) r = Some ro" "parent ro = Some p"
      by blast
    moreover from first_is [OF b] obtain ro' where
      "deref (objects s) r' = Some ro'" "parent ro' = Some q"
      by blast
    ultimately show False using ne eq by simp
  qed
  have all: "wf_objects (objects s')
    \<and> (\<forall>q. retranslators_of (objects s') q = retranslators_of (objects s) q
             \<or> (retranslators_of (objects s) q = []
                \<and> retranslators_of (objects s') q = [length (objects s)]))
    \<and> (\<forall>p r rs. retranslators_of (objects s) p = r # rs \<longrightarrow>
           callbacks_of (objects s') r = callbacks_of (objects s) r @ attached_to p c)"
  proof (cases c)
    case (Call_installTranslator env loc pre parent_arg)
    then have "objects s' = objects s" using c by (auto simp: objects_installTranslator)
    then show ?thesis using wf Call_installTranslator by simp
  next
    case Call_translatorLocaleName
    then show ?thesis using wf c by auto
  next
    case (Call_eventFilter self obj e)
    then have "objects s' = objects s" using c by (auto dest: objects_eventFilter)
    then show ?thesis using wf Call_eventFilter by simp
  next
    case (Call_retranslatorFor q)
    then obtain x where x: "retranslatorFor q s = Some x" and s': "s' = snd x"
      using c by auto
    obtain qo where qo: "deref (objects s) q = Some qo"
      using retranslatorFor_live [OF x] by blast
    show ?thesis
    proof (cases "retranslators_of (objects s) q")
      case Nil
      then have o: "objects s' = with_new_Retranslator (objects s) q qo"
        using x s' retranslatorFor_result [OF wf qo] by auto
      show ?thesis
        unfolding o using wf qo Nil Call_retranslatorFor
        by (auto simp: wf_with_new retranslators_of_with_new callbacks_of_with_new)
    next
      case (Cons r rs)
      then have "objects s' = objects s"
        using x s' retranslatorFor_result [OF wf qo] by auto
      then show ?thesis using wf Call_retranslatorFor by simp
    qed
  next
    case (Call_attachRetranslator q f)
    then obtain cf where a: "attachRetranslator q f s = Some (cf, s')" using c by auto
    obtain qo where qo: "deref (objects s) q = Some qo"
      using attachRetranslator_live [OF a] by blast
    show ?thesis
    proof (cases "retranslators_of (objects s) q")
      case Nil
      then have o: "objects s' =
          with_callback (with_new_Retranslator (objects s) q qo) (length (objects s)) f"
        using a attachRetranslator_result [OF wf qo] by auto
      have ne: "\<And>p r rs. retranslators_of (objects s) p = r # rs \<Longrightarrow>
                  r \<noteq> length (objects s) \<and> p \<noteq> q"
        using first_is Nil by (fastforce dest: deref_Some_less)
      show ?thesis
        unfolding o using wf qo Nil Call_attachRetranslator
        by (auto simp: wf_with_new wf_with_callback retranslators_of_with_new
              retranslators_of_with_callback callbacks_of_with_new callbacks_of_with_callback
              dest: ne)
    next
      case (Cons r' rs')
      then have o: "objects s' = with_callback (objects s) r' f"
        using a attachRetranslator_result [OF wf qo] by auto
      have r': "is_Retranslator (objects s) r'" using first_is [OF Cons] by simp
      show ?thesis
        unfolding o using wf Cons Call_attachRetranslator r'
        by (auto simp: wf_with_callback retranslators_of_with_callback
              callbacks_of_with_callback dest: distinct_first [OF _ Cons])
    qed
  qed
  show "wf_objects (objects s')" using all by blast
  show "\<And>q. retranslators_of (objects s') q = retranslators_of (objects s) q
             \<or> (retranslators_of (objects s) q = []
                \<and> retranslators_of (objects s') q = [length (objects s)])"
    using all by blast
  show "\<And>p r rs. retranslators_of (objects s) p = r # rs \<Longrightarrow>
           callbacks_of (objects s') r = callbacks_of (objects s) r @ attached_to p c"
    using all by blast
qed

lemma run_objects:
  assumes "wf_objects (objects s)" and "run cs s = Some s'"
  shows "wf_objects (objects s')"
    and "(\<forall>q. length (retranslators_of (objects s) q) \<le> 1) \<Longrightarrow>
         (\<forall>q. length (retranslators_of (objects s') q) \<le> 1)"
    and "retranslators_of (objects s) p = r # rs \<Longrightarrow>
         retranslators_of (objects s') p = r # rs
         \<and> callbacks_of (objects s') r =
             callbacks_of (objects s) r @ concat (map (attached_to p) cs)"
  using assms
proof (induction cs arbitrary: s)
  case Nil
  { case 1 then show ?case by simp }
  { case 2 then show ?case by simp }
  { case 3 then show ?case by simp }
next
  case (Cons c cs)
  { case 1
    from 1(2) obtain s1 where p: "perform c s = Some s1" and r: "run cs s1 = Some s'"
      by (auto split: option.splits)
    show ?case using Cons.IH(1) [OF perform_objects(1) [OF 1(1) p] r] . }
  { case 2
    from 2(3) obtain s1 where p: "perform c s = Some s1" and r: "run cs s1 = Some s'"
      by (auto split: option.splits)
    have "\<forall>q. length (retranslators_of (objects s1) q) \<le> 1"
    proof
      fix q show "length (retranslators_of (objects s1) q) \<le> 1"
        using perform_objects(2) [OF 2(2) p, of q] 2(1) by auto
    qed
    then show ?case using Cons.IH(2) [OF _ perform_objects(1) [OF 2(2) p] r] by blast }
  { case 3
    from 3(3) obtain s1 where p: "perform c s = Some s1" and r: "run cs s1 = Some s'"
      by (auto split: option.splits)
    have keep: "retranslators_of (objects s1) p = r # rs"
      using perform_objects(2) [OF 3(2) p, of p] 3(1) by auto
    have cb: "callbacks_of (objects s1) r = callbacks_of (objects s) r @ attached_to p c"
      using perform_objects(3) [OF 3(2) p 3(1)] .
    show ?case
      using Cons.IH(3) [OF keep perform_objects(1) [OF 3(2) p] r] cb by simp }
qed

lemma wf_example: "wf_objects (objects example_start)"
  by (simp add: wf_objects_def example_start_def example_objects_def initial_state_def deref_def)

lemma live_example:
  "deref (objects example_start) 0 =
     Some \<lparr>parent = None, children = [], eventFilters = [], derived = PlainObject\<rparr>"
  by (simp add: example_start_def example_objects_def initial_state_def deref_def)

subsection \<open>retranslatorFor\<close>

lemma retranslatorFor_twice:
  assumes wf: "wf_objects (objects s)" and live: "deref (objects s) p = Some po"
  shows "\<exists>r s1. retranslatorFor p s = Some (r, s1)
           \<and> retranslatorFor p s1 = Some (r, s1)
           \<and> hd (retranslators_of (objects s1) p) = r
           \<and> (\<exists>ro funcs. deref (objects s1) r = Some ro \<and> parent ro = Some p
                 \<and> derived ro = Retranslator funcs)
           \<and> (retranslators_of (objects s) p = [] \<longrightarrow>
                 r = length (objects s) \<and> deref (objects s) r = None
               \<and> retranslators_of (objects s1) p = [r] \<and> callbacks_of (objects s1) r = [])
           \<and> (retranslators_of (objects s) p \<noteq> [] \<longrightarrow>
                 s1 = s \<and> r = hd (retranslators_of (objects s) p))
           \<and> wf_objects (objects s1)"
proof (cases "retranslators_of (objects s) p")
    case Nil
    let ?n = "length (objects s)"
    let ?s1 = "s\<lparr>objects := with_new_Retranslator (objects s) p po,
                  trace := trace s @ [NewRetranslator ?n p]\<rparr>"
    have first: "retranslatorFor p s = Some (?n, ?s1)"
      using retranslatorFor_result [OF wf live] Nil by simp
    have wf1: "wf_objects (objects ?s1)" using wf_with_new [OF wf live] by simp
    have live1: "deref (objects ?s1) p =
        Some (po\<lparr>children := children po @ [?n],
                 eventFilters := ?n # removeAll ?n (eventFilters po)\<rparr>)"
      by (simp add: deref_with_new [OF live])
    have r1: "retranslators_of (objects ?s1) p = [?n]"
      using retranslators_of_with_new [OF wf live, of p] Nil by simp
    have second: "retranslatorFor p ?s1 = Some (?n, ?s1)"
      using retranslatorFor_result [OF wf1 live1] r1 by simp
    have ob: "\<exists>ro funcs. deref (objects ?s1) ?n = Some ro \<and> parent ro = Some p
                 \<and> derived ro = Retranslator funcs"
      using first_retranslator [OF wf1 r1] by blast
    have cb: "callbacks_of (objects ?s1) ?n = []"
      using callbacks_of_with_new [OF live, of ?n]
      by (simp add: callbacks_of_def deref_length)
    show ?thesis
      using first second r1 ob cb wf1 Nil by (auto simp: deref_length)
  next
    case (Cons r rs)
    have first: "retranslatorFor p s = Some (r, s)"
      using retranslatorFor_result [OF wf live] Cons by simp
    have ob: "\<exists>ro funcs. deref (objects s) r = Some ro \<and> parent ro = Some p
                 \<and> derived ro = Retranslator funcs"
      using first_retranslator [OF wf Cons] by blast
    show ?thesis
      using first ob wf Cons by auto
qed

text \<open>
  Claim C5. For a live parent \<open>p\<close> in a well-formed object store, \<open>retranslatorFor p\<close>
  returns a Retranslator \<open>r\<close> and a state, and a second call in that state returns the
  same \<open>r\<close> and leaves the state as it is. The object at \<open>r\<close> is a Retranslator whose
  parent is \<open>p\<close>, and it is the first Retranslator among the children of \<open>p\<close>. When \<open>p\<close>
  had no Retranslator child, \<open>r\<close> is a new object at a fresh address, the only
  Retranslator child of \<open>p\<close>, with no callbacks; when it had one, the first call changes
  nothing and returns the first of them. The store stays well formed, and when every
  parent has at most one Retranslator child, so it is after any run of calls.
\<close>

theorem retranslatorFor_idempotent:
  assumes wf: "wf_objects (objects s)" and live: "deref (objects s) p = Some po"
  shows "\<exists>r s1. retranslatorFor p s = Some (r, s1)
           \<and> retranslatorFor p s1 = Some (r, s1)
           \<and> hd (retranslators_of (objects s1) p) = r
           \<and> (\<exists>ro funcs. deref (objects s1) r = Some ro \<and> parent ro = Some p
                 \<and> derived ro = Retranslator funcs)
           \<and> (retranslators_of (objects s) p = [] \<longrightarrow>
                 r = length (objects s) \<and> deref (objects s) r = None
               \<and> retranslators_of (objects s1) p = [r] \<and> callbacks_of (objects s1) r = [])
           \<and> (retranslators_of (objects s) p \<noteq> [] \<longrightarrow>
                 s1 = s \<and> r = hd (retranslators_of (objects s) p))
           \<and> wf_objects (objects s1)
           \<and> (\<forall>cs s'. (\<forall>q. length (retranslators_of (objects s) q) \<le> 1) \<and> run cs s = Some s'
                 \<longrightarrow> (\<forall>q. length (retranslators_of (objects s') q) \<le> 1))"
proof -
  have inv: "\<forall>cs s'. (\<forall>q. length (retranslators_of (objects s) q) \<le> 1) \<and> run cs s = Some s'
                 \<longrightarrow> (\<forall>q. length (retranslators_of (objects s') q) \<le> 1)"
    using run_objects(2) [OF wf] by blast
  from retranslatorFor_twice [OF wf live] obtain r s1 where
    "retranslatorFor p s = Some (r, s1)
           \<and> retranslatorFor p s1 = Some (r, s1)
           \<and> hd (retranslators_of (objects s1) p) = r
           \<and> (\<exists>ro funcs. deref (objects s1) r = Some ro \<and> parent ro = Some p
                 \<and> derived ro = Retranslator funcs)
           \<and> (retranslators_of (objects s) p = [] \<longrightarrow>
                 r = length (objects s) \<and> deref (objects s) r = None
               \<and> retranslators_of (objects s1) p = [r] \<and> callbacks_of (objects s1) r = [])
           \<and> (retranslators_of (objects s) p \<noteq> [] \<longrightarrow>
                 s1 = s \<and> r = hd (retranslators_of (objects s) p))
           \<and> wf_objects (objects s1)"
    by blast
  with inv show ?thesis by blast
qed

theorem retranslatorFor_idempotent_witness:
  "\<exists>r s1. retranslatorFor 0 example_start = Some (r, s1)
         \<and> retranslatorFor 0 s1 = Some (r, s1)
         \<and> r = 1
         \<and> retranslators_of (objects s1) 0 = [1]"
proof -
  have e: "retranslators_of (objects example_start) 0 = []"
    by (simp add: retranslators_of_def live_example)
  have l: "length (objects example_start) = 1"
    by (simp add: example_start_def example_objects_def initial_state_def)
  show ?thesis
    using retranslatorFor_idempotent [OF wf_example live_example] e l by auto
qed

subsection \<open>attachRetranslator\<close>

text \<open>
  Claim C8. For a live parent \<open>p\<close> in a well-formed object store and any callback \<open>f\<close>,
  \<open>attachRetranslator p f\<close> ends in a state in which the callback list of the
  Retranslator \<open>r\<close> of \<open>p\<close> (the one \<open>retranslatorFor p\<close> returns) is the former list
  with \<open>f\<close> appended at the end. Among the events the call adds to the trace \<open>f\<close> is
  invoked exactly once and no other callback is invoked; the invocation is the last
  event, after the append. The Retranslator of \<open>p\<close> is still \<open>r\<close> afterwards. The call
  returns when \<open>f\<close> returns; when \<open>f\<close> throws, its exception leaves the call, after the
  append and the one invocation.
\<close>

theorem attachRetranslator_invokes_once:
  assumes wf: "wf_objects (objects s)" and live: "deref (objects s) p = Some po"
  shows "\<exists>r s1 s2. retranslatorFor p s = Some (r, s1)
           \<and> attachRetranslator p f s = Some (if throws f then Thrown else Returned (), s2)
           \<and> trace s2 = trace s1 @ [Invoke f]
           \<and> invocations (drop (length (trace s)) (trace s2)) = [f]
           \<and> callbacks_of (objects s2) r = callbacks_of (objects s1) r @ [f]
           \<and> callbacks_of (objects s1) r = callbacks_of (objects s) r
           \<and> retranslatorFor p s2 = Some (r, s2)"
proof (cases "retranslators_of (objects s) p")
  case Nil
  let ?n = "length (objects s)"
  let ?o1 = "with_new_Retranslator (objects s) p po"
  let ?s1 = "s\<lparr>objects := ?o1, trace := trace s @ [NewRetranslator ?n p]\<rparr>"
  let ?s2 = "s\<lparr>objects := with_callback ?o1 ?n f,
                trace := trace s @ [NewRetranslator ?n p, Invoke f]\<rparr>"
  have first: "retranslatorFor p s = Some (?n, ?s1)"
    using retranslatorFor_result [OF wf live] Nil by simp
  have att: "attachRetranslator p f s = Some (if throws f then Thrown else Returned (), ?s2)"
    using attachRetranslator_result [OF wf live] Nil by simp
  have isr: "is_Retranslator ?o1 ?n" by (simp add: is_Retranslator_with_new [OF live])
  have wf2: "wf_objects (objects ?s2)"
    using wf_with_callback [OF wf_with_new [OF wf live]] by simp
  have plt: "p \<noteq> ?n" using deref_Some_less [OF live] by simp
  have live2: "\<exists>po2. deref (objects ?s2) p = Some po2"
    using plt by (simp add: deref_with_callback deref_with_new [OF live])
  have r2: "retranslators_of (objects ?s2) p = [?n]"
    using retranslators_of_with_new [OF wf live, of p] Nil
    by (simp add: retranslators_of_with_callback)
  have again: "retranslatorFor p ?s2 = Some (?n, ?s2)"
    using live2 retranslatorFor_result [OF wf2] r2 by auto
  have cb1: "callbacks_of (objects ?s1) ?n = callbacks_of (objects s) ?n"
    using callbacks_of_with_new [OF live, of ?n] by simp
  have cb2: "callbacks_of (objects ?s2) ?n = callbacks_of (objects ?s1) ?n @ [f]"
    using isr by (simp add: callbacks_of_with_callback)
  show ?thesis
    using first att again cb1 cb2 by (simp add: invocations_def)
next
  case (Cons r rs)
  let ?s2 = "s\<lparr>objects := with_callback (objects s) r f, trace := trace s @ [Invoke f]\<rparr>"
  have first: "retranslatorFor p s = Some (r, s)"
    using retranslatorFor_result [OF wf live] Cons by simp
  have att: "attachRetranslator p f s = Some (if throws f then Thrown else Returned (), ?s2)"
    using attachRetranslator_result [OF wf live] Cons by simp
  obtain ro funcs where ro: "deref (objects s) r = Some ro" "derived ro = Retranslator funcs"
    using first_retranslator [OF wf Cons] by blast
  have isr: "is_Retranslator (objects s) r" using ro by (simp add: is_Retranslator_def)
  have wf2: "wf_objects (objects ?s2)" using wf_with_callback [OF wf] by simp
  have live2: "\<exists>po2. deref (objects ?s2) p = Some po2"
    using live by (auto simp: deref_with_callback)
  have r2: "retranslators_of (objects ?s2) p = r # rs"
    using Cons by (simp add: retranslators_of_with_callback)
  have again: "retranslatorFor p ?s2 = Some (r, ?s2)"
    using live2 retranslatorFor_result [OF wf2] r2 by auto
  have cb2: "callbacks_of (objects ?s2) r = callbacks_of (objects s) r @ [f]"
    using isr by (simp add: callbacks_of_with_callback)
  show ?thesis
    using first att again cb2 by (simp add: invocations_def)
qed

theorem attachRetranslator_invokes_once_witness:
  "(\<exists>r s1 s2. retranslatorFor 0 example_start = Some (r, s1)
           \<and> attachRetranslator 0 (Returning 7) example_start = Some (Returned (), s2)
           \<and> trace s2 = trace s1 @ [Invoke (Returning 7)]
           \<and> invocations (drop (length (trace example_start)) (trace s2)) = [Returning 7]
           \<and> callbacks_of (objects s2) r = callbacks_of (objects s1) r @ [Returning 7]
           \<and> callbacks_of (objects s1) r = callbacks_of (objects example_start) r
           \<and> retranslatorFor 0 s2 = Some (r, s2))
   \<and> (\<exists>r s1 s2. retranslatorFor 0 example_start = Some (r, s1)
           \<and> attachRetranslator 0 (Throwing 8) example_start = Some (Thrown, s2)
           \<and> trace s2 = trace s1 @ [Invoke (Throwing 8)]
           \<and> invocations (drop (length (trace example_start)) (trace s2)) = [Throwing 8]
           \<and> callbacks_of (objects s2) r = callbacks_of (objects s1) r @ [Throwing 8]
           \<and> callbacks_of (objects s1) r = callbacks_of (objects example_start) r
           \<and> retranslatorFor 0 s2 = Some (r, s2))"
  using attachRetranslator_invokes_once [OF wf_example live_example, of "Returning 7"]
        attachRetranslator_invokes_once [OF wf_example live_example, of "Throwing 8"]
  by simp

subsection \<open>eventFilter\<close>

lemma example_throwing_eval:
  "example_throwing =
     \<lparr>translators = [], app_translators = [], s_brandingTranslator = None,
      s_translator = None, s_tztranslator = None, s_translatorLocaleName = [],
      objects =
        [Some \<lparr>parent = None, children = [1], eventFilters = [1], derived = PlainObject\<rparr>,
         Some \<lparr>parent = Some 0, children = [], eventFilters = [],
               derived = Retranslator [Throwing 20, Returning 21]\<rparr>],
      trace = [NewRetranslator 1 0, Invoke (Throwing 20), Invoke (Returning 21)]\<rparr>"
  by (simp add: example_throwing_def example_start_def example_objects_def initial_state_def
        attachRetranslator_def retranslatorFor_def new_Retranslator_def update_object_def
        deref_def invoke_def emit_def Let_def)

text \<open>
  Claim C3, as the code has it: the claim holds when no callback of the list throws.
  Let \<open>r\<close> be the Retranslator that \<open>retranslatorFor p\<close> returns in a well-formed store,
  and let any run of calls follow. Then the callback list of \<open>r\<close> is its list at the
  start followed by the callbacks attached to \<open>p\<close> during the run, in the order of the
  calls. When no callback of the list throws, a \<open>LanguageChange\<close> event for the object
  \<open>p\<close> makes \<open>eventFilter\<close> invoke each callback of the list once, in the order of the
  list, and then emit \<open>languageChange\<close> once. An event for another object, or of another
  type, leaves the state as it is: no callback is invoked and nothing is emitted.
  Whenever \<open>eventFilter\<close> returns, and so whenever no callback throws, its result is that
  of \<open>QObject::eventFilter\<close>, which is false: the event is not filtered out. When a
  callback of the list throws, the first one that does is the last event of the call:
  the callbacks before it have been invoked once each, those after it are not invoked,
  \<open>languageChange\<close> is not emitted, and the exception leaves \<open>eventFilter\<close>.
\<close>

theorem eventFilter_dispatch:
  assumes wf: "wf_objects (objects s0)"
      and attached: "retranslatorFor p s0 = Some (r, s)"
      and later: "run cs s = Some s'"
  shows "callbacks_of (objects s') r =
           callbacks_of (objects s0) r @ concat (map (attached_to p) cs)
       \<and> ((\<forall>f\<in>set (callbacks_of (objects s') r). \<not> throws f) \<longrightarrow>
             eventFilter r p \<lparr>event_type = LanguageChange\<rparr> s' =
               Some (Returned False,
                     s'\<lparr>trace := trace s' @ map Invoke (callbacks_of (objects s') r)
                                    @ [Emit_languageChange r]\<rparr>))
       \<and> (\<forall>obj e. obj \<noteq> p \<or> event_type e \<noteq> LanguageChange \<longrightarrow>
             eventFilter r obj e s' = Some (Returned False, s'))
       \<and> (\<forall>obj e b s''. eventFilter r obj e s' = Some (Returned b, s'') \<longrightarrow>
             b = QObject_eventFilter obj e)
       \<and> (\<forall>obj e. (\<forall>f\<in>set (callbacks_of (objects s') r). \<not> throws f) \<longrightarrow>
             map_option fst (eventFilter r obj e s') = Some (Returned (QObject_eventFilter obj e)))
       \<and> (\<forall>pre g post.
             callbacks_of (objects s') r = pre @ g # post \<and> (\<forall>f\<in>set pre. \<not> throws f)
             \<and> throws g \<longrightarrow>
             eventFilter r p \<lparr>event_type = LanguageChange\<rparr> s' =
               Some (Thrown, s'\<lparr>trace := trace s' @ map Invoke pre @ [Invoke g]\<rparr>))"
proof -
  obtain po where live: "deref (objects s0) p = Some po"
    using retranslatorFor_live [OF attached] by blast
  obtain r' s1 where
    first: "retranslatorFor p s0 = Some (r', s1)" and
    hd1: "hd (retranslators_of (objects s1) p) = r'" and
    ob1: "\<exists>ro funcs. deref (objects s1) r' = Some ro \<and> parent ro = Some p
                 \<and> derived ro = Retranslator funcs" and
    new: "retranslators_of (objects s0) p = [] \<longrightarrow>
                 r' = length (objects s0) \<and> deref (objects s0) r' = None
               \<and> retranslators_of (objects s1) p = [r'] \<and> callbacks_of (objects s1) r' = []" and
    old: "retranslators_of (objects s0) p \<noteq> [] \<longrightarrow>
                 s1 = s0 \<and> r' = hd (retranslators_of (objects s0) p)" and
    wf1: "wf_objects (objects s1)"
    using retranslatorFor_twice [OF wf live] by blast
  have eq: "r' = r" "s1 = s" using first attached by simp_all
  have ne: "retranslators_of (objects s) p \<noteq> []"
    using new old eq by (cases "retranslators_of (objects s0) p") auto
  then obtain rs where rl: "retranslators_of (objects s) p = r # rs"
    using hd1 eq by (cases "retranslators_of (objects s) p") auto
  have cb0: "callbacks_of (objects s) r = callbacks_of (objects s0) r"
    using new old eq by (cases "retranslators_of (objects s0) p")
      (auto simp: callbacks_of_def)
  have wfs: "wf_objects (objects s)" using wf1 eq by simp
  have wf': "wf_objects (objects s')" using run_objects(1) [OF wfs later] .
  have rl': "retranslators_of (objects s') p = r # rs"
    and cb: "callbacks_of (objects s') r =
             callbacks_of (objects s) r @ concat (map (attached_to p) cs)"
    using run_objects(3) [OF wfs later rl] by blast+
  obtain ro funcs where ro: "deref (objects s') r = Some ro" "parent ro = Some p"
      "derived ro = Retranslator funcs" "callbacks_of (objects s') r = funcs"
    using first_retranslator [OF wf' rl'] by blast
  note ef = eventFilter_result [OF ro(1) ro(3)]
  have c1: "callbacks_of (objects s') r =
           callbacks_of (objects s0) r @ concat (map (attached_to p) cs)"
    using cb cb0 by simp
  have c2: "(\<forall>f\<in>set (callbacks_of (objects s') r). \<not> throws f) \<longrightarrow>
             eventFilter r p \<lparr>event_type = LanguageChange\<rparr> s' =
               Some (Returned False,
                     s'\<lparr>trace := trace s' @ map Invoke (callbacks_of (objects s') r)
                                    @ [Emit_languageChange r]\<rparr>)"
    using ef(2) [of p "\<lparr>event_type = LanguageChange\<rparr>"] ro(2) ro(4) by simp
  have c3: "\<forall>obj e. obj \<noteq> p \<or> event_type e \<noteq> LanguageChange \<longrightarrow>
             eventFilter r obj e s' = Some (Returned False, s')"
    using ef(1) ro(2) by auto
  have c6: "\<forall>pre g post.
             callbacks_of (objects s') r = pre @ g # post \<and> (\<forall>f\<in>set pre. \<not> throws f)
             \<and> throws g \<longrightarrow>
             eventFilter r p \<lparr>event_type = LanguageChange\<rparr> s' =
               Some (Thrown, s'\<lparr>trace := trace s' @ map Invoke pre @ [Invoke g]\<rparr>)"
    using ef(3) [of p "\<lparr>event_type = LanguageChange\<rparr>"] ro(2) ro(4) by simp
  have c5: "\<forall>obj e. (\<forall>f\<in>set (callbacks_of (objects s') r). \<not> throws f) \<longrightarrow>
             map_option fst (eventFilter r obj e s') = Some (Returned (QObject_eventFilter obj e))"
  proof (intro allI impI)
    fix obj e assume nt: "\<forall>f\<in>set (callbacks_of (objects s') r). \<not> throws f"
    show "map_option fst (eventFilter r obj e s') = Some (Returned (QObject_eventFilter obj e))"
    proof (cases "parent ro = Some obj \<and> event_type e = LanguageChange")
      case True
      then show ?thesis using ef(2) [of obj e] nt ro(4) by (simp add: QObject_eventFilter_def)
    next
      case False
      then show ?thesis using ef(1) [of obj e] by (simp add: QObject_eventFilter_def)
    qed
  qed
  have c4: "\<forall>obj e b s''. eventFilter r obj e s' = Some (Returned b, s'') \<longrightarrow>
             b = QObject_eventFilter obj e"
    using ro(1) ro(3)
    by (auto simp: eventFilter_def QObject_eventFilter_def
             split: if_splits prod.splits completion.splits)
  show ?thesis using c1 c2 c3 c4 c5 c6 by blast
qed

theorem eventFilter_dispatch_witness:
  "callbacks_of (objects example_attached) 1 = [Returning 10, Returning 11, Returning 12]
   \<and> eventFilter 1 0 \<lparr>event_type = LanguageChange\<rparr> example_attached =
       Some (Returned False,
             example_attached\<lparr>trace := trace example_attached
                @ [Invoke (Returning 10), Invoke (Returning 11), Invoke (Returning 12),
                   Emit_languageChange 1]\<rparr>)
   \<and> eventFilter 1 0 \<lparr>event_type = OtherEvent 5\<rparr> example_attached
       = Some (Returned False, example_attached)
   \<and> eventFilter 1 2 \<lparr>event_type = LanguageChange\<rparr> example_attached
       = Some (Returned False, example_attached)
   \<and> trace example_attached =
       [NewRetranslator 1 0, Invoke (Returning 10), Invoke (Returning 11),
        Invoke (Returning 12)]
   \<and> eventFilter 1 0 \<lparr>event_type = OtherEvent 5\<rparr> example_throwing
       = Some (Returned False, example_throwing)
   \<and> eventFilter 1 0 \<lparr>event_type = LanguageChange\<rparr> example_throwing
       = Some (Thrown,
               example_throwing\<lparr>trace := trace example_throwing @ [Invoke (Throwing 20)]\<rparr>)"
proof -
  let ?s = "snd (the (retranslatorFor 0 example_start))"
  let ?cs = "[Call_attachRetranslator 0 (Returning 10), Call_attachRetranslator 0 (Returning 11),
               Call_attachRetranslator 0 (Returning 12)]"
  let ?ct = "[Call_attachRetranslator 0 (Throwing 20), Call_attachRetranslator 0 (Returning 21)]"
  have a: "retranslatorFor 0 example_start = Some (1, ?s)"
    by (simp add: example_start_def example_objects_def initial_state_def
        retranslatorFor_def new_Retranslator_def update_object_def
        deref_def emit_def Let_def)
  have ne: "run ?cs ?s \<noteq> None"
    by (simp add: example_start_def example_objects_def initial_state_def
        attachRetranslator_def retranslatorFor_def new_Retranslator_def update_object_def
        deref_def invoke_def emit_def Let_def)
  then have r: "run ?cs ?s = Some example_attached"
    by (auto simp: example_attached_def)
  have net: "run ?ct ?s \<noteq> None"
    by (simp add: example_start_def example_objects_def initial_state_def
        attachRetranslator_def retranslatorFor_def new_Retranslator_def update_object_def
        deref_def invoke_def emit_def Let_def)
  then have rt: "run ?ct ?s = Some example_throwing"
    by (auto simp: example_throwing_def)
  have t: "trace example_attached =
       [NewRetranslator 1 0, Invoke (Returning 10), Invoke (Returning 11),
        Invoke (Returning 12)]"
    unfolding example_attached_def
    by (simp add: example_start_def example_objects_def initial_state_def
        attachRetranslator_def retranslatorFor_def new_Retranslator_def update_object_def
        deref_def invoke_def emit_def Let_def)
  have c0: "callbacks_of (objects example_start) 1 = []"
    by (simp add: callbacks_of_def example_start_def example_objects_def initial_state_def
          deref_def)
  have ct: "callbacks_of (objects example_throwing) 1 = [] @ Throwing 20 # [Returning 21]"
    by (simp add: example_throwing_eval callbacks_of_def deref_def)
  have th: "eventFilter 1 0 \<lparr>event_type = LanguageChange\<rparr> example_throwing
       = Some (Thrown,
               example_throwing\<lparr>trace := trace example_throwing @ [Invoke (Throwing 20)]\<rparr>)"
  proof -
    from eventFilter_dispatch [OF wf_example a rt]
    have "callbacks_of (objects example_throwing) 1 = [] @ Throwing 20 # [Returning 21]
            \<and> (\<forall>f\<in>set []. \<not> throws f) \<and> throws (Throwing 20) \<longrightarrow>
          eventFilter 1 0 \<lparr>event_type = LanguageChange\<rparr> example_throwing =
            Some (Thrown,
                  example_throwing\<lparr>trace := trace example_throwing @ map Invoke []
                     @ [Invoke (Throwing 20)]\<rparr>)"
      by blast
    with ct show ?thesis by simp
  qed
  show ?thesis
    using eventFilter_dispatch [OF wf_example a r] eventFilter_dispatch [OF wf_example a rt]
          c0 t th
    by simp
qed

text \<open>The claim without the condition fails on the Retranslator of the object 0 with the
  callbacks 20, which throws, and 21: a \<open>LanguageChange\<close> event for the object 0 invokes
  20 only; 21 is not invoked, \<open>languageChange\<close> is not emitted and \<open>eventFilter\<close> does not
  return.\<close>

theorem eventFilter_dispatch_counterexample:
  "callbacks_of (objects example_throwing) 1 = [Throwing 20, Returning 21]
   \<and> trace example_throwing =
       [NewRetranslator 1 0, Invoke (Throwing 20), Invoke (Returning 21)]
   \<and> eventFilter 1 0 \<lparr>event_type = LanguageChange\<rparr> example_throwing =
       Some (Thrown,
             example_throwing\<lparr>trace := trace example_throwing @ [Invoke (Throwing 20)]\<rparr>)
   \<and> eventFilter 1 0 \<lparr>event_type = LanguageChange\<rparr> example_throwing \<noteq>
       Some (Returned (QObject_eventFilter 0 \<lparr>event_type = LanguageChange\<rparr>),
             example_throwing\<lparr>trace := trace example_throwing
                @ [Invoke (Throwing 20), Invoke (Returning 21), Emit_languageChange 1]\<rparr>)"
  by (simp add: example_throwing_eval callbacks_of_def deref_def eventFilter_def invoke_def
        emit_def)

end
